theory Spec2Isabelle
  imports
    Complex_Main
    "HOL-Library.Char_ord"
    "HOL-Library.List_Lexorder"
    "HOL-Library.Multiset"
    "HOL-Library.Sublist"
begin

section \<open>Python strings\<close>

text \<open>
  A Python \<open>str\<close> is a sequence of code points. The model keeps the code points below 256
  and writes them as HOL characters, so a \<open>string\<close> here is a Python string over Latin-1.
  Comparison of strings is Python's: code point by code point, a proper prefix first
  (the orders of \<open>Char_ord\<close> and \<open>List_Lexorder\<close>).
\<close>

definition py_isspace :: "char \<Rightarrow> bool" where
  \<comment> \<open>the code points below 256 for which \<open>str.isspace\<close> holds: tab, line feed, vertical tab,
      form feed, carriage return, the four separators 28..31, space, NEL (133), no-break
      space (160)\<close>
  "py_isspace c \<longleftrightarrow>
     (let n = (of_char c :: nat)
      in (9 \<le> n \<and> n \<le> 13) \<or> (28 \<le> n \<and> n \<le> 32) \<or> n = 133 \<or> n = 160)"

definition py_lower_char :: "char \<Rightarrow> char" where
  \<comment> \<open>\<open>str.lower\<close> on one code point below 256: A..Z and the accented capitals 192..222
      (but not the multiplication sign, 215) move up by 32\<close>
  "py_lower_char c =
     (let n = (of_char c :: nat)
      in if (65 \<le> n \<and> n \<le> 90) \<or> (192 \<le> n \<and> n \<le> 222 \<and> n \<noteq> 215)
         then char_of (n + 32) else c)"

definition py_lower :: "string \<Rightarrow> string" where
  "py_lower s = map py_lower_char s"

definition py_endswith :: "string \<Rightarrow> string \<Rightarrow> bool" where
  "py_endswith s suf = suffix suf s"

definition py_in :: "string \<Rightarrow> string \<Rightarrow> bool" where
  \<comment> \<open>\<open>k in text\<close> on strings: \<open>k\<close> occurs in \<open>text\<close> as a contiguous run\<close>
  "py_in k text = sublist k text"

definition py_strip :: "string \<Rightarrow> string" where
  "py_strip s = rev (dropWhile py_isspace (rev (dropWhile py_isspace s)))"

text \<open>
  \<open>text.split()\<close> with no argument: the maximal runs of non-whitespace characters, in
  order. The first argument is the word being read.
\<close>

fun split_from :: "string \<Rightarrow> string \<Rightarrow> string list" where
  "split_from w [] = (if w = [] then [] else [w])"
| "split_from w (c # cs) =
     (if py_isspace c
      then (if w = [] then split_from [] cs else w # split_from [] cs)
      else split_from (w @ [c]) cs)"

definition py_split :: "string \<Rightarrow> string list" where
  "py_split s = split_from [] s"

fun py_join :: "string \<Rightarrow> string list \<Rightarrow> string" where
  "py_join sep [] = []"
| "py_join sep [w] = w"
| "py_join sep (w # v # ws) = w @ sep @ py_join sep (v # ws)"

section \<open>The speech reader (\<open>pdf-reader-bot.py\<close>)\<close>

text \<open>
  Console output is a list of messages, one constructor per \<open>print\<close> of the source; the
  calls into the speech engine and into the PDF library are events of the same trace, in
  program order. What the process cannot compute itself is read from an environment:
  the command line, the answers typed or chosen by the user, the files, the installed
  voices, and the library functions \<open>langdetect.detect\<close> and \<open>int\<close>.
\<close>

datatype error = PdfOpenError | PdfReadError | ZeroDivisionError | IndexError | ValueError

datatype message =
    Available_voices
  | Voice_line nat string string
  | Language_voice_map "(string \<times> string) list"
  | Detected_language string
  | Could_not_detect
  | Page_has_no_text int
  | No_text_to_read
  | No_pages_found int
  | Reading_page int
  | No_dedicated_voice string
  | Using_voice string string
  | Finished_reading
  | No_path_argument
  | No_file_selected
  | File_not_found string
  | Not_a_pdf
  | Using_pdf string
  | Extracting_text
  | No_readable_text
  | Pages_with_text nat
  | Invalid_page_number
  | Starting_tts
  | Done

datatype utterance = Page_number int | Page_text string

datatype event =
    Print message
  | Open_pdf string
  | Init_engine string
  | Set_rate int
  | Set_voice string
  | Say string utterance  \<comment> \<open>\<open>say\<close>: the voice in effect, and what is queued\<close>
  | Run_and_wait
  | Raised error

datatype pdf_source = Unreadable | Pdf_pages "string option list"
  \<comment> \<open>a file as \<open>pdfplumber\<close> sees it: not openable, or one \<open>extract_text()\<close> result per page
      (\<open>None\<close> where the library returns \<open>None\<close>)\<close>

record reader_env =
  argv :: "string list"
  tk_available :: bool
  dialog_choice :: string          \<comment> \<open>\<open>askopenfilename\<close>: the empty string when cancelled\<close>
  typed_path :: string             \<comment> \<open>the answer to the path prompt\<close>
  typed_start_page :: string       \<comment> \<open>the answer to the start page prompt\<close>
  files :: "string \<rightharpoonup> pdf_source"  \<comment> \<open>the paths that exist\<close>
  platform_system :: string
  engine_rate :: int
  engine_voice :: string           \<comment> \<open>the voice of a freshly initialised engine\<close>
  installed_voices :: "(string \<times> string) list"  \<comment> \<open>id and name of each voice\<close>
  detect :: "string \<Rightarrow> string option"  \<comment> \<open>\<open>None\<close>: \<open>LangDetectException\<close>\<close>
  py_int :: "string \<Rightarrow> int option"     \<comment> \<open>\<open>None\<close>: \<open>ValueError\<close>\<close>

definition init_tts_engine :: "reader_env \<Rightarrow> event list" where
  "init_tts_engine env =
     [Init_engine (if platform_system env = ''Windows'' then ''sapi5''
                   else if platform_system env = ''Darwin'' then ''nsss''
                   else ''espeak''),
      Set_rate (engine_rate env - 20)]"

definition voice_matches :: "string \<times> string \<Rightarrow> string list \<Rightarrow> bool" where
  "voice_matches v keywords =
     (let text = py_lower (fst v @ '' '' @ snd v)
      in list_ex (\<lambda>k. py_in (py_lower k) text) keywords)"

definition en_keywords :: "string list" where
  "en_keywords = [''en'', ''english'']"

definition fr_keywords :: "string list" where
  "fr_keywords = [''fr'', ''french'', ''fran'' @ [CHR 0xE7] @ ''ais'', ''francais'']"

definition voice_lines :: "(string \<times> string) list \<Rightarrow> event list" where
  "voice_lines voices = map (\<lambda>(i, v). Print (Voice_line i (fst v) (snd v))) (enumerate 0 voices)"

definition build_language_voice_map ::
  "(string \<times> string) list \<Rightarrow> (string \<times> string) list \<times> event list" where
  \<comment> \<open>the dictionary as the list of its items in insertion order; its keys are distinct\<close>
  "build_language_voice_map voices =
     (let m1 = (case find (\<lambda>v. voice_matches v en_keywords) voices of
                  None \<Rightarrow> [] | Some v \<Rightarrow> [(''en'', fst v)]);
          m2 = (case find (\<lambda>v. voice_matches v fr_keywords) voices of
                  None \<Rightarrow> m1 | Some v \<Rightarrow> m1 @ [(''fr'', fst v)])
      in (m2, [Print Available_voices] @ voice_lines voices @ [Print (Language_voice_map m2)]))"

definition detect_language_of_text ::
  "(string \<Rightarrow> string option) \<Rightarrow> string \<Rightarrow> string \<times> event list" where
  "detect_language_of_text det text =
     (let sample = take 800 text
      in case det sample of
           Some lang \<Rightarrow> (lang, [Print (Detected_language lang)])
         | None \<Rightarrow> (''unknown'', [Print Could_not_detect]))"

definition choose_pdf_file :: "reader_env \<Rightarrow> string option" where
  "choose_pdf_file env =
     (if \<not> tk_available env
      then (let pdf_path = py_strip (typed_path env)
            in if pdf_path \<noteq> [] then Some pdf_path else None)
      else (let file_path = dialog_choice env
            in if file_path \<noteq> [] then Some file_path else None))"

text \<open>The loop of \<open>extract_text_from_pdf\<close> over the pages, numbered from \<open>i\<close>.\<close>

fun extract_pages :: "int \<Rightarrow> string option list \<Rightarrow> (int \<times> string) list \<times> event list" where
  "extract_pages i [] = ([], [])"
| "extract_pages i (text # rest) =
     (let (pages, out) = extract_pages (i + 1) rest
      in if text = None \<or> text = Some []
         then (pages, Print (Page_has_no_text i) # out)
         else (let cleaned_text = py_join '' '' (py_split (the text))
               in if py_strip cleaned_text \<noteq> []
                  then ((i, cleaned_text) # pages, out)
                  else (pages, out)))"

definition extract_text_from_pdf ::
  "reader_env \<Rightarrow> string \<Rightarrow> (error + (int \<times> string) list) \<times> event list" where
  "extract_text_from_pdf env pdf_path =
     (case files env pdf_path of
        Some (Pdf_pages raw) \<Rightarrow>
          (let (pages, out) = extract_pages 1 raw in (Inr pages, Open_pdf pdf_path # out))
      | _ \<Rightarrow> (Inl PdfOpenError, [Open_pdf pdf_path]))"

definition default_lang :: string where
  "default_lang = ''en''"

text \<open>
  The loop of \<open>read_text_aloud\<close> over the pages. The third argument is the voice
  property of the engine when the page starts: \<open>setProperty\<close> is only called when the
  dictionary gives a non-empty voice id, and the property keeps its value otherwise.
\<close>

fun speak_pages ::
  "(string \<Rightarrow> string option) \<Rightarrow> (string \<times> string) list \<Rightarrow> string \<Rightarrow> (int \<times> string) list
   \<Rightarrow> event list" where
  "speak_pages det lang_voice_map cur [] = []"
| "speak_pages det lang_voice_map cur ((page_num, text) # rest) =
     (let (lang0, out) = detect_language_of_text det text;
          missing = (map_of lang_voice_map lang0 = None);
          lang = (if missing then default_lang else lang0);
          voice_id = map_of lang_voice_map lang;
          sets = (voice_id \<noteq> None \<and> voice_id \<noteq> Some []);
          cur' = (if sets then the voice_id else cur)
      in [Print (Reading_page page_num)] @ out
         @ (if missing then [Print (No_dedicated_voice lang0)] else [])
         @ (if sets then [Set_voice cur', Print (Using_voice cur' lang)] else [])
         @ [Say cur' (Page_number page_num), Say cur' (Page_text text), Run_and_wait]
         @ speak_pages det lang_voice_map cur' rest)"

definition read_text_aloud ::
  "reader_env \<Rightarrow> (int \<times> string) list \<Rightarrow> int option \<Rightarrow> event list" where
  "read_text_aloud env pages_text start_page =
     (if pages_text = [] then [Print No_text_to_read]
      else
        (let (lang_voice_map, out) = build_language_voice_map (installed_voices env);
             setup = init_tts_engine env @ out;
             speak = (\<lambda>ps. speak_pages (detect env) lang_voice_map (engine_voice env) ps
                            @ [Print Finished_reading])
         in case start_page of
              None \<Rightarrow> setup @ speak pages_text
            | Some p \<Rightarrow>
                (let pages_text' = filter (\<lambda>(num, text). num \<ge> p) pages_text
                 in if pages_text' = [] then setup @ [Print (No_pages_found p)]
                    else setup @ speak pages_text')))"

definition get_pdf_path :: "reader_env \<Rightarrow> string option \<times> event list" where
  \<comment> \<open>step 1 of \<open>main\<close>: the path from the command line, or from the chooser\<close>
  "get_pdf_path env =
     (if length (argv env) \<ge> 2 then (Some (argv env ! 1), [])
      else (choose_pdf_file env, [Print No_path_argument]))"

definition main :: "reader_env \<Rightarrow> event list" where
  "main env =
     (let (pdf_path, out1) = get_pdf_path env
      in if pdf_path = None \<or> pdf_path = Some [] then out1 @ [Print No_file_selected]
         else if files env (the pdf_path) = None
         then out1 @ [Print (File_not_found (the pdf_path))]
         else if \<not> py_endswith (py_lower (the pdf_path)) ''.pdf''
         then out1 @ [Print Not_a_pdf]
         else
           (let out2 = out1 @ [Print (Using_pdf (the pdf_path)), Print Extracting_text];
                (res, out3) = extract_text_from_pdf env (the pdf_path)
            in case res of
                 Inl e \<Rightarrow> out2 @ out3 @ [Raised e]
               | Inr pages_text \<Rightarrow>
                   if pages_text = [] then out2 @ out3 @ [Print No_readable_text]
                   else
                     (let out4 = out2 @ out3 @ [Print (Pages_with_text (length pages_text))];
                          start_page_input = py_strip (typed_start_page env);
                          (start_page, out5) =
                             (if start_page_input \<noteq> []
                              then (case py_int env start_page_input of
                                      Some n \<Rightarrow> (Some n, [])
                                    | None \<Rightarrow> (None, [Print Invalid_page_number]))
                              else (None, []))
                      in out4 @ out5 @ [Print Starting_tts]
                         @ read_text_aloud env pages_text start_page @ [Print Done])))"

text \<open>
  What a trace speaks. \<open>say\<close> only queues an utterance, with the voice then in effect;
  \<open>runAndWait\<close> speaks what is queued. An utterance that is queued and never run is not
  spoken. The first argument is the queue.
\<close>

fun spoken_from :: "(string \<times> utterance) list \<Rightarrow> event list \<Rightarrow> (string \<times> utterance) list" where
  "spoken_from q [] = []"
| "spoken_from q (Say v u # es) = spoken_from (q @ [(v, u)]) es"
| "spoken_from q (Run_and_wait # es) = q @ spoken_from [] es"
| "spoken_from q (e # es) = spoken_from q es"

definition spoken :: "event list \<Rightarrow> (string \<times> utterance) list" where
  "spoken es = spoken_from [] es"

fun silent :: "event \<Rightarrow> bool" where
  "silent (Say v u) = False"
| "silent Run_and_wait = False"
| "silent e = True"

fun speaks_of :: "int \<times> string \<Rightarrow> utterance list" where
  "speaks_of (num, text) = [Page_number num, Page_text text]"

fun spoken_page :: "string \<times> int \<times> string \<Rightarrow> (string \<times> utterance) list" where
  \<comment> \<open>a page spoken in one voice: its number, then its text\<close>
  "spoken_page (v, num, text) = [(v, Page_number num), (v, Page_text text)]"

definition pages_read :: "(int \<times> string) list \<Rightarrow> int option \<Rightarrow> (int \<times> string) list" where
  \<comment> \<open>the pages left by the starting page, if one is given\<close>
  "pages_read pages_text start_page =
     (case start_page of
        None \<Rightarrow> pages_text
      | Some p \<Rightarrow> filter (\<lambda>(num, text). num \<ge> p) pages_text)"

definition blank :: "string \<Rightarrow> bool" where
  \<comment> \<open>empty or whitespace-only\<close>
  "blank s = list_all py_isspace s"

definition ws_free :: "string \<Rightarrow> bool" where
  \<comment> \<open>no whitespace character\<close>
  "ws_free w = list_all (\<lambda>c. \<not> py_isspace c) w"

text \<open>
  A text in which whitespace occurs only as one space character between two
  non-whitespace characters.
\<close>

fun collapsed :: "string \<Rightarrow> bool" where
  "collapsed [] = True"
| "collapsed [c] = (\<not> py_isspace c)"
| "collapsed (c # d # s) =
     (\<not> py_isspace c \<and>
      (if py_isspace d then d = CHR '' '' \<and> s \<noteq> [] \<and> collapsed s else collapsed (d # s)))"

section \<open>The merger (\<open>merge_pdfs.py\<close>)\<close>

text \<open>
  The input directory is the list of its entries, in the order the file system lists
  them; an entry is a name and what \<open>PdfMerger.append\<close> finds in the file: the pages of a
  PDF document, or something it cannot read (it raises). The output directory is absent,
  or a map from names to the documents written. Paths are compared as on POSIX: by name,
  case-sensitively.
\<close>

datatype 'p pdf_file = Readable "'p list" | Malformed

record 'p merge_fs =
  input_dir :: "(string \<times> 'p pdf_file) list"
  output_dir :: "(string \<rightharpoonup> 'p list) option"

datatype merge_message =
    No_pdf_files_found
  | Merging_in_this_order
  | Listed string
  | Merged_file_saved_as string

datatype 'p merge_event =
    Printed merge_message
  | Wrote string "'p list"
  | Closed_merger
  | Merge_raised error

definition matches_pdf :: "string \<Rightarrow> bool" where
  \<comment> \<open>the pattern \<open>*.pdf\<close> on a file name\<close>
  "matches_pdf name = py_endswith name ''.pdf''"

definition glob_pdf :: "'p merge_fs \<Rightarrow> (string \<times> 'p pdf_file) list" where
  "glob_pdf fs = filter (\<lambda>(name, f). matches_pdf name) (input_dir fs)"

text \<open>The loop over the sorted files; the first argument is the merger's pages so far.\<close>

fun append_all ::
  "'p list \<Rightarrow> (string \<times> 'p pdf_file) list \<Rightarrow> (error + 'p list) \<times> 'p merge_event list" where
  "append_all acc [] = (Inr acc, [])"
| "append_all acc ((name, f) # rest) =
     (case f of
        Malformed \<Rightarrow> (Inl PdfReadError, [Printed (Listed name)])
      | Readable ps \<Rightarrow>
          (let (res, out) = append_all (acc @ ps) rest
           in (res, Printed (Listed name) # out)))"

definition merge_pdfs :: "string \<Rightarrow> 'p merge_fs \<Rightarrow> 'p merge_fs \<times> 'p merge_event list" where
  "merge_pdfs output_name fs =
     (let pdf_files = sort_key fst (glob_pdf fs)
      in if pdf_files = [] then (fs, [Printed No_pdf_files_found])
         else
           (let out_dir = (case output_dir fs of None \<Rightarrow> Map.empty | Some d \<Rightarrow> d);
                (res, out) = append_all [] pdf_files
            in case res of
                 Inl e \<Rightarrow>
                   (fs\<lparr>output_dir := Some out_dir\<rparr>,
                    Printed Merging_in_this_order # out @ [Closed_merger, Merge_raised e])
               | Inr pages \<Rightarrow>
                   (fs\<lparr>output_dir := Some (out_dir(output_name \<mapsto> pages))\<rparr>,
                    Printed Merging_in_this_order # out
                    @ [Wrote output_name pages, Printed (Merged_file_saved_as output_name),
                       Closed_merger])))"

fun pages_of :: "'p pdf_file \<Rightarrow> 'p list" where
  "pages_of (Readable ps) = ps"
| "pages_of Malformed = []"

fun writes :: "'p merge_event list \<Rightarrow> (string \<times> 'p list) list" where
  "writes [] = []"
| "writes (Wrote name ps # es) = (name, ps) # writes es"
| "writes (e # es) = writes es"

section \<open>The annotator (\<open>pdf_annotator.py\<close>)\<close>

text \<open>
  Coordinates and the zoom factor are Python floats, read here as real numbers. A
  document is the list of its pages (\<open>fitz.Document\<close>; its length is its page count, so
  an object with no page is false in a condition, like \<open>None\<close>); a page is its original
  content and its annotations, oldest first. The canvas is the list of its items with the
  ids Tk gave them. The application object carries, next to the fields of the source, the
  message boxes shown so far and the files on disk, so that every handler is a function
  from the application to the application. An exception that leaves a handler is reported
  by Tk and the main loop goes on: a handler returns the application as the exception
  left it, and the exception.

  The library calls that draw are taken to succeed: \<open>get_pixmap\<close> and the canvas
  operations. The \<open>add_*_annot\<close> methods succeed on a page that exists, except where the
  library checks its argument: \<open>add_highlight_annot\<close> and \<open>add_freetext_annot\<close> raise
  \<open>ValueError\<close> on an empty rectangle.
\<close>

type_synonym point = "real \<times> real"

datatype tool = Draw | Highlight | Text

datatype annotation =
    Ink "point list list" real              \<comment> \<open>the strokes, and the border width\<close>
  | Highlight_annot real real real real      \<comment> \<open>\<open>fitz.Rect(x0, y0, x1, y1)\<close>\<close>
  | Free_text real real real real string     \<comment> \<open>the rectangle and the text\<close>
  | Text_note point string

record page =
  content :: string
  annots :: "annotation list"

type_synonym document = "page list"

record view_state =
  zoom :: real
  page_index :: int
  tool :: tool
  draw_width :: real

datatype canvas_item =
    Page_image int real        \<comment> \<open>the page shown, and the zoom it was rendered at\<close>
  | Ink_tmp point point
  | Preview_rect point point

datatype dialog = Open_failed string | Nothing_to_save | Saved string | Save_failed string

datatype file_data = Pdf_document document | Partial_output

text \<open>
  What \<open>Document.save\<close> does is the library's and the disk's affair: it writes the whole
  document, or raises with a message, having left the path alone (\<open>None\<close>) or having left
  some file data there.
\<close>

datatype save_outcome = Save_ok | Save_raises string "file_data option"

record app =
  state :: view_state
  doc :: "document option"
  pdf_path :: "string option"
  tool_var :: tool
  zoom_var :: real
  drag_start :: "point option"
  current_highlight_rect_id :: "nat option"
  last_draw_point :: "point option"
  current_stroke_points :: "point list"
  canvas :: "(nat \<times> canvas_item) list"
  next_item_id :: nat
  page_label :: "(int \<times> nat) option"
  dialogs :: "dialog list"
  disk :: "string \<rightharpoonup> file_data"

definition init_app :: "(string \<rightharpoonup> file_data) \<Rightarrow> app" where
  "init_app d =
     \<lparr> state = \<lparr> zoom = 1.5, page_index = 0, tool = Draw, draw_width = 2 \<rparr>,
       doc = None, pdf_path = None, tool_var = Draw, zoom_var = 1.5,
       drag_start = None, current_highlight_rect_id = None, last_draw_point = None,
       current_stroke_points = [], canvas = [], next_item_id = 1, page_label = None,
       dialogs = [], disk = d \<rparr>"

definition no_doc :: "app \<Rightarrow> bool" where
  \<comment> \<open>\<open>not self.doc\<close>\<close>
  "no_doc st = (case doc st of None \<Rightarrow> True | Some d \<Rightarrow> d = [])"

definition create_item :: "app \<Rightarrow> canvas_item \<Rightarrow> nat \<times> app" where
  "create_item st item =
     (next_item_id st,
      st\<lparr>canvas := canvas st @ [(next_item_id st, item)], next_item_id := next_item_id st + 1\<rparr>)"

definition render_page :: "app \<Rightarrow> app" where
  "render_page st =
     (if no_doc st then st
      else
        (let page_count = int (length (the (doc st)));
             idx = max 0 (min (page_index (state st)) (page_count - 1));
             st1 = st\<lparr>state := (state st)\<lparr>page_index := idx, zoom := zoom_var st\<rparr>\<rparr>;
             (img, st2) = create_item (st1\<lparr>canvas := []\<rparr>) (Page_image idx (zoom (state st1)))
         in st2\<lparr>page_label := Some (idx + 1, nat page_count)\<rparr>))"

definition open_pdf :: "app \<Rightarrow> string \<Rightarrow> string + document \<Rightarrow> app" where
  \<comment> \<open>the path chosen in the dialog (empty when cancelled) and what \<open>fitz.open\<close> makes of
      it: an exception with its message, or a document\<close>
  "open_pdf st file_path opened =
     (if file_path = [] then st
      else case opened of
             Inl msg \<Rightarrow> st\<lparr>dialogs := dialogs st @ [Open_failed msg]\<rparr>
           | Inr d \<Rightarrow>
               render_page (st\<lparr>doc := Some d, pdf_path := Some file_path,
                               state := (state st)\<lparr>page_index := 0\<rparr>\<rparr>))"

definition prev_page :: "app \<Rightarrow> app" where
  "prev_page st =
     (if no_doc st then st
      else render_page (st\<lparr>state := (state st)\<lparr>page_index := page_index (state st) - 1\<rparr>\<rparr>))"

definition next_page :: "app \<Rightarrow> app" where
  "next_page st =
     (if no_doc st then st
      else render_page (st\<lparr>state := (state st)\<lparr>page_index := page_index (state st) + 1\<rparr>\<rparr>))"

definition set_tool :: "app \<Rightarrow> app" where
  "set_tool st = st\<lparr>state := (state st)\<lparr>tool := tool_var st\<rparr>\<rparr>"

definition apply_zoom :: "app \<Rightarrow> app" where
  "apply_zoom st = (if \<not> no_doc st then render_page st else st)"

definition canvas_to_pdf :: "app \<Rightarrow> real \<Rightarrow> real \<Rightarrow> error + point" where
  "canvas_to_pdf st x y =
     (let z = zoom (state st)
      in if z = 0 then Inl ZeroDivisionError else Inr (x / z, y / z))"

text \<open>\<open>self.doc[self.state.page_index]\<close>, and the page put back with one more annotation.\<close>

definition current_page :: "app \<Rightarrow> error + page" where
  "current_page st =
     (let d = the (doc st); i = page_index (state st)
      in if 0 \<le> i \<and> i < int (length d) then Inr (d ! nat i) else Inl IndexError)"

definition add_annot :: "app \<Rightarrow> annotation \<Rightarrow> app" where
  "add_annot st a =
     (let d = the (doc st); i = nat (page_index (state st))
      in st\<lparr>doc := Some (d[i := (d ! i)\<lparr>annots := annots (d ! i) @ [a]\<rparr>])\<rparr>)"

definition rect_is_empty :: "real \<Rightarrow> real \<Rightarrow> real \<Rightarrow> real \<Rightarrow> bool" where
  \<comment> \<open>\<open>fitz.Rect(x0, y0, x1, y1).is_empty\<close>\<close>
  "rect_is_empty x0 y0 x1 y1 \<longleftrightarrow> x0 \<ge> x1 \<or> y0 \<ge> y1"

definition add_highlight_rect :: "app \<Rightarrow> real \<Rightarrow> real \<Rightarrow> real \<Rightarrow> real \<Rightarrow> error + app" where
  "add_highlight_rect st x0 y0 x1 y1 =
     (if no_doc st then Inr st
      else case current_page st of
        Inl e \<Rightarrow> Inl e
      | Inr page \<Rightarrow>
          (let xs = sort [x0, x1]; left = xs ! 0; right = xs ! 1;
               ys = sort [y0, y1]; top = ys ! 0; bottom = ys ! 1
           in case canvas_to_pdf st left top of
                Inl e \<Rightarrow> Inl e
              | Inr (px0, py0) \<Rightarrow>
                  (case canvas_to_pdf st right bottom of
                     Inl e \<Rightarrow> Inl e
                   | Inr (px1, py1) \<Rightarrow>
                       if rect_is_empty px0 py0 px1 py1 then Inl ValueError
                       else Inr (add_annot st (Highlight_annot px0 py0 px1 py1)))))"

definition add_text_at_canvas_point :: "app \<Rightarrow> real \<Rightarrow> real \<Rightarrow> string \<Rightarrow> error + app" where
  "add_text_at_canvas_point st x y text =
     (if no_doc st then Inr st
      else case current_page st of
        Inl e \<Rightarrow> Inl e
      | Inr page \<Rightarrow>
          (case canvas_to_pdf st x y of
             Inl e \<Rightarrow> Inl e
           | Inr (px, py) \<Rightarrow>
               (let rect_width = 250; rect_height = 40
                in if rect_is_empty px py (px + rect_width) (py + rect_height)
                   then Inl ValueError
                   else Inr (add_annot st
                          (Free_text px py (px + rect_width) (py + rect_height) text)))))"

definition add_note_at_canvas_point :: "app \<Rightarrow> real \<Rightarrow> real \<Rightarrow> string \<Rightarrow> error + app" where
  "add_note_at_canvas_point st x y text =
     (if no_doc st then Inr st
      else case current_page st of
        Inl e \<Rightarrow> Inl e
      | Inr page \<Rightarrow>
          (case canvas_to_pdf st x y of
             Inl e \<Rightarrow> Inl e
           | Inr (px, py) \<Rightarrow> Inr (add_annot st (Text_note (px, py) text))))"

text \<open>The list comprehension over the stroke points: the first failing point raises.\<close>

fun to_pdf_points :: "app \<Rightarrow> point list \<Rightarrow> error + point list" where
  "to_pdf_points st [] = Inr []"
| "to_pdf_points st ((x, y) # ps) =
     (case canvas_to_pdf st x y of
        Inl e \<Rightarrow> Inl e
      | Inr q \<Rightarrow> (case to_pdf_points st ps of Inl e \<Rightarrow> Inl e | Inr qs \<Rightarrow> Inr (q # qs)))"

fun is_ink_tmp :: "canvas_item \<Rightarrow> bool" where
  "is_ink_tmp (Ink_tmp a b) = True"
| "is_ink_tmp item = False"

definition finalize_draw_stroke :: "app \<Rightarrow> error + app" where
  "finalize_draw_stroke st =
     (if no_doc st \<or> length (current_stroke_points st) < 2 then Inr st
      else case current_page st of
        Inl e \<Rightarrow> Inl e
      | Inr page \<Rightarrow>
          (case to_pdf_points st (current_stroke_points st) of
             Inl e \<Rightarrow> Inl e
           | Inr stroke_pdf_points \<Rightarrow>
               (let st1 = add_annot st (Ink [stroke_pdf_points] (draw_width (state st)))
                in Inr (st1\<lparr>canvas := filter (\<lambda>(i, item). \<not> is_ink_tmp item) (canvas st1),
                            current_stroke_points := []\<rparr>))))"

definition rect_id_set :: "app \<Rightarrow> bool" where
  \<comment> \<open>the truth value of \<open>self._current_highlight_rect_id\<close>\<close>
  "rect_id_set st = (case current_highlight_rect_id st of None \<Rightarrow> False | Some i \<Rightarrow> i \<noteq> 0)"

definition on_mouse_down :: "app \<Rightarrow> point \<Rightarrow> string option \<Rightarrow> app \<times> error option" where
  \<comment> \<open>the canvas point of the event, and the answer to the text prompt should the handler
      ask (\<open>None\<close> when cancelled)\<close>
  "on_mouse_down st p answer =
     (if no_doc st then (st, None)
      else case tool (state st) of
        Draw \<Rightarrow> (st\<lparr>current_stroke_points := [p], last_draw_point := Some p\<rparr>, None)
      | Highlight \<Rightarrow>
          (let (rid, st1) = create_item (st\<lparr>drag_start := Some p\<rparr>) (Preview_rect p p)
           in (st1\<lparr>current_highlight_rect_id := Some rid\<rparr>, None))
      | Text \<Rightarrow>
          (if answer = None \<or> answer = Some [] then (st, None)
           else case add_text_at_canvas_point st (fst p) (snd p) (the answer) of
                  Inl e \<Rightarrow> (st, Some e)
                | Inr st1 \<Rightarrow> (render_page st1, None)))"

definition on_mouse_drag :: "app \<Rightarrow> point \<Rightarrow> app" where
  "on_mouse_drag st p =
     (if no_doc st then st
      else if tool (state st) = Draw \<and> last_draw_point st \<noteq> None
      then (let (line, st1) = create_item st (Ink_tmp (the (last_draw_point st)) p)
            in st1\<lparr>last_draw_point := Some p,
                   current_stroke_points := current_stroke_points st1 @ [p]\<rparr>)
      else if tool (state st) = Highlight \<and> drag_start st \<noteq> None \<and> rect_id_set st
      then st\<lparr>canvas := map (\<lambda>(i, item).
                  if i = the (current_highlight_rect_id st)
                  then (i, Preview_rect (the (drag_start st)) p) else (i, item)) (canvas st)\<rparr>
      else st)"

definition on_mouse_up :: "app \<Rightarrow> point \<Rightarrow> app \<times> error option" where
  "on_mouse_up st p =
     (if no_doc st then (st, None)
      else if tool (state st) = Draw
      then (case finalize_draw_stroke st of
              Inl e \<Rightarrow> (st, Some e)
            | Inr st1 \<Rightarrow> (render_page (st1\<lparr>last_draw_point := None\<rparr>), None))
      else if tool (state st) = Highlight \<and> drag_start st \<noteq> None
      then (let (x0, y0) = the (drag_start st);
                st1 = st\<lparr>drag_start := None\<rparr>;
                st2 = (if rect_id_set st1
                       then st1\<lparr>canvas := filter (\<lambda>(i, item).
                                   i \<noteq> the (current_highlight_rect_id st1)) (canvas st1),
                                 current_highlight_rect_id := None\<rparr>
                       else st1)
            in case add_highlight_rect st2 x0 y0 (fst p) (snd p) of
                 Inl e \<Rightarrow> (st2, Some e)
               | Inr st3 \<Rightarrow> (render_page st3, None))
      else (st, None))"

definition save_as :: "app \<Rightarrow> string \<Rightarrow> save_outcome \<Rightarrow> app" where
  \<comment> \<open>the path chosen in the dialog (empty when cancelled) and what \<open>self.doc.save\<close> does
      with it; the name proposed from the clock only fills the dialog\<close>
  "save_as st out_path outcome =
     (if no_doc st \<or> pdf_path st = None then st\<lparr>dialogs := dialogs st @ [Nothing_to_save]\<rparr>
      else if out_path = [] then st
      else case outcome of
             Save_ok \<Rightarrow>
               st\<lparr>disk := (disk st)(out_path \<mapsto> Pdf_document (the (doc st))),
                  dialogs := dialogs st @ [Saved out_path]\<rparr>
           | Save_raises msg left \<Rightarrow>
               st\<lparr>disk := (case left of None \<Rightarrow> disk st | Some x \<Rightarrow> (disk st)(out_path \<mapsto> x)),
                  dialogs := dialogs st @ [Save_failed msg]\<rparr>)"

text \<open>A draw or highlight gesture: the button goes down, the pointer moves, the button goes up.\<close>

definition drag_through :: "app \<Rightarrow> point list \<Rightarrow> app" where
  "drag_through st ps = foldl on_mouse_drag st ps"

definition gesture :: "app \<Rightarrow> point \<Rightarrow> point list \<Rightarrow> point \<Rightarrow> app \<times> error option" where
  "gesture st p0 ps q = on_mouse_up (drag_through (fst (on_mouse_down st p0 None)) ps) q"

datatype nav = Prev | Next

fun nav_step :: "app \<Rightarrow> nav \<Rightarrow> app" where
  "nav_step st Prev = prev_page st"
| "nav_step st Next = next_page st"

definition navigate :: "app \<Rightarrow> nav list \<Rightarrow> app" where
  "navigate st evs = foldl nav_step st evs"

fun shown_pages :: "(nat \<times> canvas_item) list \<Rightarrow> int list" where
  "shown_pages [] = []"
| "shown_pages ((i, Page_image n z) # items) = n # shown_pages items"
| "shown_pages (item # items) = shown_pages items"

definition outcome :: "error + app \<Rightarrow> document option \<Rightarrow> document option \<times> error option" where
  \<comment> \<open>the document after a call and the exception it raised: the document returned, or
      the one before the call when it raised\<close>
  "outcome r old = (case r of Inl e \<Rightarrow> (old, Some e) | Inr s \<Rightarrow> (doc s, None))"

section \<open>Inputs used to run the definitions\<close>

definition env_txt :: reader_env where
  \<comment> \<open>the reader started on \<open>notes.txt\<close>, an existing file that holds a PDF document\<close>
  "env_txt =
     \<lparr> argv = [''pdf-reader-bot.py'', ''notes.txt''], tk_available = False,
       dialog_choice = [], typed_path = [], typed_start_page = [],
       files = [''notes.txt'' \<mapsto> Pdf_pages [Some ''hello'']],
       platform_system = ''Linux'', engine_rate = 200, engine_voice = ''default'',
       installed_voices = [], detect = (\<lambda>s. Some ''en''), py_int = (\<lambda>s. None) \<rparr>"

definition two_pages :: document where
  "two_pages = [\<lparr>content = ''page one'', annots = []\<rparr>, \<lparr>content = ''page two'', annots = []\<rparr>]"

definition app_one :: app where
  \<comment> \<open>the annotator after opening a document of two pages with the zoom spinner at 2\<close>
  "app_one =
     \<lparr> state = \<lparr> zoom = 2, page_index = 0, tool = Draw, draw_width = 2 \<rparr>,
       doc = Some two_pages, pdf_path = Some ''in.pdf'', tool_var = Draw, zoom_var = 2,
       drag_start = None, current_highlight_rect_id = None, last_draw_point = None,
       current_stroke_points = [], canvas = [(1, Page_image 0 2)], next_item_id = 2,
       page_label = Some (1, 2), dialogs = [], disk = Map.empty \<rparr>"

definition app_hl :: app where
  \<comment> \<open>the same with the highlight tool selected\<close>
  "app_hl = app_one\<lparr>state := (state app_one)\<lparr>tool := Highlight\<rparr>, tool_var := Highlight\<rparr>"

definition app_zero :: app where
  \<comment> \<open>0 is typed into the zoom field, then the next page is asked for\<close>
  "app_zero = next_page (app_one\<lparr>zoom_var := 0\<rparr>)"

definition fs_bad :: "nat merge_fs" where
  \<comment> \<open>an input directory holding one file named \<open>a.pdf\<close> that is not a PDF document\<close>
  "fs_bad = \<lparr> input_dir = [(''a.pdf'', Malformed)], output_dir = None \<rparr>"

definition fs_ok :: "nat merge_fs" where
  \<comment> \<open>three documents, with pages numbered for the example, and a text file\<close>
  "fs_ok =
     \<lparr> input_dir = [(''b.pdf'', Readable [3, 4]), (''notes.txt'', Malformed),
                     (''a.pdf'', Readable [1, 2]), (''a10.pdf'', Readable [9])],
       output_dir = None \<rparr>"

definition env_en :: reader_env where
  \<comment> \<open>a German system with an English and a French voice installed; \<open>detect\<close> knows two texts\<close>
  "env_en =
     \<lparr> argv = [''pdf-reader-bot.py'', ''doc.pdf''], tk_available = False,
       dialog_choice = [], typed_path = [], typed_start_page = [],
       files = Map.empty,
       platform_system = ''Darwin'', engine_rate = 200,
       engine_voice = ''com.apple.voice.compact.de-DE.Anna'',
       installed_voices = [(''com.apple.voice.compact.de-DE.Anna'', ''Anna''),
                           (''com.apple.voice.compact.en-US.Samantha'', ''Samantha''),
                           (''com.apple.voice.compact.fr-FR.Thomas'', ''Thomas'')],
       detect = (\<lambda>s. if s = ''Bonjour'' then Some ''fr''
                     else if s = ''Guten Tag'' then Some ''de'' else None),
       py_int = (\<lambda>s. None) \<rparr>"

definition env_de :: reader_env where
  \<comment> \<open>the same system without the English voice\<close>
  "env_de = env_en\<lparr>installed_voices := [(''com.apple.voice.compact.de-DE.Anna'', ''Anna''),
                           (''com.apple.voice.compact.fr-FR.Thomas'', ''Thomas'')]\<rparr>"

definition env_ws :: reader_env where
  \<comment> \<open>a document of four pages: text, no text layer, two spaces, the empty string\<close>
  "env_ws =
     env_txt\<lparr>files := [''doc.pdf'' \<mapsto>
       Pdf_pages [Some ('' Hello'' @ [CHR 0x09, CHR 0x0A] @ ''world  ''), None, Some ''  '',
                  Some []]]\<rparr>"

definition env_blank :: reader_env where
  \<comment> \<open>a document of one page whose extracted text is one space\<close>
  "env_blank = env_txt\<lparr>files := [''scan.pdf'' \<mapsto> Pdf_pages [Some '' '']]\<rparr>"

section \<open>Properties of the speech reader\<close>

lemma spoken_from_silent:
  "list_all silent xs \<Longrightarrow> spoken_from q (xs @ ys) = spoken_from q ys"
proof (induction xs)
  case Nil
  show ?case by simp
next
  case (Cons e xs)
  then have "silent e" "list_all silent xs" by simp_all
  then show ?case using Cons.IH by (cases e) simp_all
qed

lemma spoken_from_page:
  "spoken_from [] (Say c a # Say c b # Run_and_wait # es) = [(c, a), (c, b)] @ spoken_from [] es"
  by simp

lemma silent_voice_lines: "list_all silent (voice_lines vs)"
  by (simp add: voice_lines_def list_all_iff case_prod_beta)

lemma silent_build: "list_all silent (snd (build_language_voice_map vs))"
  by (simp add: build_language_voice_map_def Let_def silent_voice_lines)

lemma silent_init: "list_all silent (init_tts_engine env)"
  by (simp add: init_tts_engine_def)

lemma silent_detect: "list_all silent (snd (detect_language_of_text det t))"
  by (simp add: detect_language_of_text_def Let_def split: option.splits)

lemma no_raise_voice_lines: "Raised e \<notin> set (voice_lines vs)"
  by (auto simp: voice_lines_def)

lemma no_raise_build: "Raised e \<notin> set (snd (build_language_voice_map vs))"
  by (simp add: build_language_voice_map_def Let_def no_raise_voice_lines)

lemma no_raise_detect: "Raised e \<notin> set (snd (detect_language_of_text det t))"
  by (simp add: detect_language_of_text_def Let_def split: option.splits)

lemma speak_pages_Cons_form:
  obtains pre c where "list_all silent pre" and "Raised e \<notin> set pre"
    and "speak_pages det m cur ((n, t) # ps)
         = pre @ Say c (Page_number n) # Say c (Page_text t) # Run_and_wait # speak_pages det m c ps"
    and "map_of m (fst (detect_language_of_text det t)) = None \<longrightarrow>
          (\<forall>v. map_of m default_lang = Some v \<and> v \<noteq> [] \<longrightarrow> c = v)"
proof -
  obtain l out where d: "detect_language_of_text det t = (l, out)"
    by (cases "detect_language_of_text det t")
  have so: "list_all silent out" using silent_detect [of det t] d by simp
  have ro: "Raised e \<notin> set out" using no_raise_detect [of e det t] d by simp
  define missing where "missing = (map_of m l = None)"
  define lang where "lang = (if missing then default_lang else l)"
  define sets where "sets = (map_of m lang \<noteq> None \<and> map_of m lang \<noteq> Some [])"
  define c where "c = (if sets then the (map_of m lang) else cur)"
  define pre where "pre = [Print (Reading_page n)] @ out
         @ (if missing then [Print (No_dedicated_voice l)] else [])
         @ (if sets then [Set_voice c, Print (Using_voice c lang)] else [])"
  have 1: "list_all silent pre" using so by (simp add: pre_def)
  have 2: "Raised e \<notin> set pre" using ro by (simp add: pre_def)
  have 3: "speak_pages det m cur ((n, t) # ps)
         = pre @ Say c (Page_number n) # Say c (Page_text t) # Run_and_wait # speak_pages det m c ps"
    by (simp add: d Let_def pre_def c_def sets_def lang_def missing_def)
  have 4: "map_of m (fst (detect_language_of_text det t)) = None \<longrightarrow>
          (\<forall>v. map_of m default_lang = Some v \<and> v \<noteq> [] \<longrightarrow> c = v)"
    by (auto simp: d c_def sets_def lang_def missing_def)
  from that [OF 1 2 3 4] show ?thesis .
qed

lemma speak_pages_spoken:
  "\<exists>Vs. length Vs = length ps
     \<and> (\<forall>rest. spoken_from [] (speak_pages det m cur ps @ rest)
            = concat (map spoken_page (zip Vs ps)) @ spoken_from [] rest)
     \<and> (\<forall>i < length ps.
          map_of m (fst (detect_language_of_text det (snd (ps ! i)))) = None \<longrightarrow>
          (\<forall>v. map_of m default_lang = Some v \<and> v \<noteq> [] \<longrightarrow> Vs ! i = v))"
proof (induction ps arbitrary: cur)
  case Nil
  show ?case by simp
next
  case (Cons p ps)
  obtain n t where p: "p = (n, t)" by (cases p)
  obtain pre c where
    s: "list_all silent pre"
    and "Raised undefined \<notin> set pre"
    and f: "speak_pages det m cur ((n, t) # ps)
         = pre @ Say c (Page_number n) # Say c (Page_text t) # Run_and_wait # speak_pages det m c ps"
    and cv: "map_of m (fst (detect_language_of_text det t)) = None \<longrightarrow>
          (\<forall>v. map_of m default_lang = Some v \<and> v \<noteq> [] \<longrightarrow> c = v)"
    by (rule speak_pages_Cons_form [of undefined det m cur n t ps])
  from Cons.IH [of c] obtain Vs where
    l: "length Vs = length ps"
    and r: "\<And>rest. spoken_from [] (speak_pages det m c ps @ rest)
            = concat (map spoken_page (zip Vs ps)) @ spoken_from [] rest"
    and w: "\<And>i. i < length ps \<Longrightarrow>
          map_of m (fst (detect_language_of_text det (snd (ps ! i)))) = None \<Longrightarrow>
          (\<forall>v. map_of m default_lang = Some v \<and> v \<noteq> [] \<longrightarrow> Vs ! i = v)"
    by blast
  have a: "length (c # Vs) = length (p # ps)" using l by simp
  have b: "spoken_from [] (speak_pages det m cur (p # ps) @ rest)
            = concat (map spoken_page (zip (c # Vs) (p # ps))) @ spoken_from [] rest" for rest
  proof -
    have "spoken_from [] (speak_pages det m cur (p # ps) @ rest)
          = spoken_from [] (pre @ Say c (Page_number n) # Say c (Page_text t) # Run_and_wait
               # (speak_pages det m c ps @ rest))"
      unfolding p f by simp
    also have "\<dots> = spoken_from [] (Say c (Page_number n) # Say c (Page_text t) # Run_and_wait
               # (speak_pages det m c ps @ rest))"
      by (rule spoken_from_silent [OF s])
    also have "\<dots> = [(c, Page_number n), (c, Page_text t)]
               @ spoken_from [] (speak_pages det m c ps @ rest)"
      by (rule spoken_from_page)
    finally show ?thesis by (simp add: r p)
  qed
  have d: "\<forall>i < length (p # ps).
          map_of m (fst (detect_language_of_text det (snd ((p # ps) ! i)))) = None \<longrightarrow>
          (\<forall>v. map_of m default_lang = Some v \<and> v \<noteq> [] \<longrightarrow> (c # Vs) ! i = v)"
  proof (intro allI impI)
    fix i v
    assume i: "i < length (p # ps)"
      and u: "map_of m (fst (detect_language_of_text det (snd ((p # ps) ! i)))) = None"
      and e: "map_of m default_lang = Some v \<and> v \<noteq> []"
    show "(c # Vs) ! i = v"
    proof (cases i)
      case 0
      then show ?thesis using u cv e p by simp
    next
      case (Suc j)
      then show ?thesis using w [of j] i u e by simp
    qed
  qed
  from a b d show ?case by blast
qed

lemma speak_pages_no_raise: "Raised e \<notin> set (speak_pages det m cur ps)"
proof (induction ps arbitrary: cur)
  case Nil
  show ?case by simp
next
  case (Cons p ps)
  obtain n t where p: "p = (n, t)" by (cases p)
  obtain pre c where "list_all silent pre" and r: "Raised e \<notin> set pre"
    and f: "speak_pages det m cur ((n, t) # ps)
         = pre @ Say c (Page_number n) # Say c (Page_text t) # Run_and_wait # speak_pages det m c ps"
    and "map_of m (fst (detect_language_of_text det t)) = None \<longrightarrow>
          (\<forall>v. map_of m default_lang = Some v \<and> v \<noteq> [] \<longrightarrow> c = v)"
    by (rule speak_pages_Cons_form [of e det m cur n t ps])
  show ?case unfolding p f using r Cons.IH [of c] by simp
qed

lemma read_text_aloud_no_raise: "Raised e \<notin> set (read_text_aloud env pages_text sp)"
proof -
  obtain m out where b: "build_language_voice_map (installed_voices env) = (m, out)"
    by (cases "build_language_voice_map (installed_voices env)")
  have r: "Raised e \<notin> set out" using no_raise_build [of e "installed_voices env"] b by simp
  have i: "Raised e \<notin> set (init_tts_engine env)" by (simp add: init_tts_engine_def)
  show ?thesis using r i speak_pages_no_raise [of e "detect env" m "engine_voice env"]
    by (simp add: read_text_aloud_def b Let_def split: option.splits)
qed

lemma read_text_aloud_spoken:
  "\<exists>Vs. length Vs = length (pages_read pages_text sp)
     \<and> spoken (read_text_aloud env pages_text sp)
          = concat (map spoken_page (zip Vs (pages_read pages_text sp)))
     \<and> (\<forall>i < length (pages_read pages_text sp).
          map_of (fst (build_language_voice_map (installed_voices env)))
            (fst (detect_language_of_text (detect env) (snd (pages_read pages_text sp ! i)))) = None
          \<longrightarrow> (\<forall>v. map_of (fst (build_language_voice_map (installed_voices env))) default_lang
                       = Some v \<and> v \<noteq> [] \<longrightarrow> Vs ! i = v))"
proof -
  obtain m out where b: "build_language_voice_map (installed_voices env) = (m, out)"
    by (cases "build_language_voice_map (installed_voices env)")
  have so: "list_all silent (init_tts_engine env @ out)"
    using silent_build [of "installed_voices env"] b by (simp add: silent_init)
  let ?ps = "pages_read pages_text sp"
  from speak_pages_spoken [of ?ps "detect env" m "engine_voice env"] obtain Vs where
    l: "length Vs = length ?ps"
    and r: "\<And>rest. spoken_from [] (speak_pages (detect env) m (engine_voice env) ?ps @ rest)
            = concat (map spoken_page (zip Vs ?ps)) @ spoken_from [] rest"
    and w: "\<forall>i < length ?ps.
          map_of m (fst (detect_language_of_text (detect env) (snd (?ps ! i)))) = None \<longrightarrow>
          (\<forall>v. map_of m default_lang = Some v \<and> v \<noteq> [] \<longrightarrow> Vs ! i = v)"
    by blast
  have "spoken (read_text_aloud env pages_text sp) = concat (map spoken_page (zip Vs ?ps))"
  proof (cases "?ps = []")
    case True
    have "spoken (read_text_aloud env pages_text sp) = []"
    proof (cases "pages_text = []")
      case True
      then show ?thesis by (simp add: read_text_aloud_def spoken_def)
    next
      case False
      with True obtain P where sp: "sp = Some P" by (cases sp) (auto simp: pages_read_def)
      have "read_text_aloud env pages_text sp
            = (init_tts_engine env @ out) @ [Print (No_pages_found P)]"
        using False True by (simp add: read_text_aloud_def b sp pages_read_def)
      then show ?thesis using spoken_from_silent [OF so, of "[]"] by (simp add: spoken_def)
    qed
    then show ?thesis using True by simp
  next
    case False
    then have ne: "pages_text \<noteq> []" by (auto simp: pages_read_def split: option.splits)
    have "read_text_aloud env pages_text sp
          = (init_tts_engine env @ out)
            @ (speak_pages (detect env) m (engine_voice env) ?ps @ [Print Finished_reading])"
      using False ne by (cases sp) (simp_all add: read_text_aloud_def b pages_read_def)
    then have "spoken (read_text_aloud env pages_text sp)
          = spoken_from [] (speak_pages (detect env) m (engine_voice env) ?ps
                            @ [Print Finished_reading])"
      using spoken_from_silent [OF so, of "[]"] by (simp add: spoken_def)
    then show ?thesis by (simp add: r)
  qed
  with l w show ?thesis by (auto simp: b)
qed

lemma zip_spoken_utterances:
  "length Vs = length ps \<Longrightarrow>
   map snd (concat (map spoken_page (zip Vs ps))) = concat (map speaks_of ps)"
proof (induction ps arbitrary: Vs)
  case Nil
  show ?case by simp
next
  case (Cons p ps)
  then obtain v Vs' where "Vs = v # Vs'" "length Vs' = length ps" by (cases Vs) auto
  then show ?case using Cons.IH [of Vs'] by (cases p) simp
qed

lemma zip_spoken_member:
  assumes "i < length ps" "length Vs = length ps"
  shows "(Vs ! i, Page_text (snd (ps ! i))) \<in> set (concat (map spoken_page (zip Vs ps)))"
proof -
  have "(Vs ! i, ps ! i) \<in> set (zip Vs ps)"
    using assms by (metis in_set_zip fst_conv snd_conv)
  moreover have "(Vs ! i, Page_text (snd (ps ! i))) \<in> set (spoken_page (Vs ! i, ps ! i))"
    by (cases "ps ! i") simp
  ultimately show ?thesis by auto
qed

text \<open>
  C8. With a starting page \<open>P\<close>, what the engine speaks is the page number and the text of
  each page numbered \<open>P\<close> or more, in the order of the list, and nothing else: each
  utterance is queued and then run. No exception is raised. When no page is left, nothing
  is spoken and the trace ends with a report: "No pages found starting from page \<open>P\<close>",
  or "No text to read" when the list was empty to begin with.
\<close>

theorem start_page_filter:
  "map snd (spoken (read_text_aloud env pages_text (Some P)))
     = concat (map speaks_of (filter (\<lambda>(num, text). num \<ge> P) pages_text))
   \<and> Raised e \<notin> set (read_text_aloud env pages_text (Some P))
   \<and> (filter (\<lambda>(num, text). num \<ge> P) pages_text = [] \<longrightarrow>
        read_text_aloud env pages_text (Some P) \<noteq> [] \<and>
        last (read_text_aloud env pages_text (Some P))
          = Print (if pages_text = [] then No_text_to_read else No_pages_found P))"
proof -
  from read_text_aloud_spoken [of pages_text "Some P" env] obtain Vs where
    "length Vs = length (pages_read pages_text (Some P))"
    "spoken (read_text_aloud env pages_text (Some P))
          = concat (map spoken_page (zip Vs (pages_read pages_text (Some P))))"
    by blast
  then have a: "map snd (spoken (read_text_aloud env pages_text (Some P)))
     = concat (map speaks_of (filter (\<lambda>(num, text). num \<ge> P) pages_text))"
    using zip_spoken_utterances [of Vs "pages_read pages_text (Some P)"]
    by (simp add: pages_read_def)
  have c: "filter (\<lambda>(num, text). num \<ge> P) pages_text = [] \<longrightarrow>
        read_text_aloud env pages_text (Some P) \<noteq> [] \<and>
        last (read_text_aloud env pages_text (Some P))
          = Print (if pages_text = [] then No_text_to_read else No_pages_found P)"
    by (cases "build_language_voice_map (installed_voices env)")
       (simp add: read_text_aloud_def Let_def)
  from a c read_text_aloud_no_raise [of e env pages_text "Some P"] show ?thesis by blast
qed

theorem start_page_filter_witness:
  "map snd (spoken (read_text_aloud env_txt [(1, ''one''), (3, ''three'')] (Some 2)))
     = [Page_number 3, Page_text ''three'']
   \<and> spoken (read_text_aloud env_txt [(1, ''one''), (3, ''three'')] (Some 4)) = []
   \<and> last (read_text_aloud env_txt [(1, ''one''), (3, ''three'')] (Some 4))
       = Print (No_pages_found 4)"
  using start_page_filter [of env_txt "[(1, ''one''), (3, ''three'')]" 2]
    start_page_filter [of env_txt "[(1, ''one''), (3, ''three'')]" 4]
  by simp

text \<open>
  C10. When the path that \<open>main\<close> obtained does not end in \<open>.pdf\<close> once lowered, the trace is
  the chooser notice (if the chooser was used) and one message: no file selected, file not
  found, or not a PDF. Nothing is opened, extracted or said, whatever the file holds.
\<close>

theorem main_rejects_non_pdf:
  assumes "fst (get_pdf_path env) = Some p"
    and "\<not> py_endswith (py_lower p) ''.pdf''"
  shows "main env = snd (get_pdf_path env) @
           [Print (if p = [] then No_file_selected
                   else if files env p = None then File_not_found p
                   else Not_a_pdf)]
         \<and> set (snd (get_pdf_path env)) \<subseteq> {Print No_path_argument}"
proof -
  obtain out1 where g: "get_pdf_path env = (Some p, out1)"
    using assms(1) by (cases "get_pdf_path env") simp
  have "set out1 \<subseteq> {Print No_path_argument}"
    using g by (auto simp: get_pdf_path_def split: if_splits)
  moreover have "main env = out1 @
           [Print (if p = [] then No_file_selected
                   else if files env p = None then File_not_found p
                   else Not_a_pdf)]"
    using assms(2) by (simp add: main_def g)
  ultimately show ?thesis by (simp add: g)
qed

theorem main_rejects_non_pdf_witness:
  "fst (get_pdf_path env_txt) = Some ''notes.txt''
   \<and> \<not> py_endswith (py_lower ''notes.txt'') ''.pdf''
   \<and> files env_txt ''notes.txt'' = Some (Pdf_pages [Some ''hello''])
   \<and> main env_txt = [Print Not_a_pdf]"
proof -
  have h1: "fst (get_pdf_path env_txt) = Some ''notes.txt''"
    by (simp add: env_txt_def get_pdf_path_def)
  have h2: "\<not> py_endswith (py_lower ''notes.txt'') ''.pdf''"
    by code_simp
  have h3: "files env_txt ''notes.txt'' = Some (Pdf_pages [Some ''hello''])"
    by (simp add: env_txt_def)
  have h4: "snd (get_pdf_path env_txt) = []"
    by (simp add: env_txt_def get_pdf_path_def)
  show ?thesis
    using main_rejects_non_pdf [OF h1 h2] h1 h2 h3 h4 by simp
qed

text \<open>
  C6, amended. Whether or not a starting page is given, every page that is read is spoken,
  its number and then its text in one voice, and no exception is raised; in particular a
  page whose detected language has no entry in the language-to-voice map is spoken, and
  in the voice that the map gives for the default language \<open>en\<close> whenever the map has a
  non-empty one.
\<close>

theorem unmapped_language_default_voice:
  assumes "i < length (pages_read pages_text sp)"
    and "map_of (fst (build_language_voice_map (installed_voices env)))
           (fst (detect_language_of_text (detect env) (snd (pages_read pages_text sp ! i)))) = None"
  shows "\<exists>Vs. length Vs = length (pages_read pages_text sp)
           \<and> spoken (read_text_aloud env pages_text sp)
                = concat (map spoken_page (zip Vs (pages_read pages_text sp)))
           \<and> (Vs ! i, Page_text (snd (pages_read pages_text sp ! i)))
                \<in> set (spoken (read_text_aloud env pages_text sp))
           \<and> Raised e \<notin> set (read_text_aloud env pages_text sp)
           \<and> (\<forall>v. map_of (fst (build_language_voice_map (installed_voices env))) default_lang
                       = Some v \<and> v \<noteq> [] \<longrightarrow> Vs ! i = v)"
proof -
  from read_text_aloud_spoken [of pages_text sp env] obtain Vs where
    l: "length Vs = length (pages_read pages_text sp)"
    and s: "spoken (read_text_aloud env pages_text sp)
          = concat (map spoken_page (zip Vs (pages_read pages_text sp)))"
    and w: "\<forall>i < length (pages_read pages_text sp).
          map_of (fst (build_language_voice_map (installed_voices env)))
            (fst (detect_language_of_text (detect env) (snd (pages_read pages_text sp ! i)))) = None
          \<longrightarrow> (\<forall>v. map_of (fst (build_language_voice_map (installed_voices env))) default_lang
                       = Some v \<and> v \<noteq> [] \<longrightarrow> Vs ! i = v)"
    by blast
  have m: "(Vs ! i, Page_text (snd (pages_read pages_text sp ! i)))
                \<in> set (spoken (read_text_aloud env pages_text sp))"
    unfolding s by (rule zip_spoken_member [OF assms(1) l])
  from l s m w assms read_text_aloud_no_raise [of e env pages_text sp] show ?thesis by blast
qed

theorem unmapped_language_default_voice_witness:
  "spoken (read_text_aloud env_en [(1, ''Bonjour''), (2, ''Guten Tag'')] (Some 2))
     = [(''com.apple.voice.compact.en-US.Samantha'', Page_number 2),
        (''com.apple.voice.compact.en-US.Samantha'', Page_text ''Guten Tag'')]
   \<and> fst (detect_language_of_text (detect env_en) ''Guten Tag'') = ''de''
   \<and> map_of (fst (build_language_voice_map (installed_voices env_en))) ''de'' = None"
proof -
  have r: "pages_read [(1, ''Bonjour''), (2, ''Guten Tag'')] (Some 2) = [(2, ''Guten Tag'')]"
    by (simp add: pages_read_def)
  have h1: "0 < length (pages_read [(1, ''Bonjour''), (2, ''Guten Tag'')] (Some 2))"
    by (simp add: r)
  have h5: "fst (detect_language_of_text (detect env_en) ''Guten Tag'') = ''de''"
    by code_simp
  have h6: "map_of (fst (build_language_voice_map (installed_voices env_en))) ''de'' = None"
    by code_simp
  have h2: "map_of (fst (build_language_voice_map (installed_voices env_en)))
              (fst (detect_language_of_text (detect env_en)
                 (snd (pages_read [(1, ''Bonjour''), (2, ''Guten Tag'')] (Some 2) ! 0)))) = None"
    by (simp add: r h5 h6)
  have h3: "map_of (fst (build_language_voice_map (installed_voices env_en))) default_lang
              = Some ''com.apple.voice.compact.en-US.Samantha''"
    by code_simp
  from unmapped_language_default_voice [OF h1 h2, of undefined] obtain Vs where
    l: "length Vs = length (pages_read [(1, ''Bonjour''), (2, ''Guten Tag'')] (Some 2))"
    and s: "spoken (read_text_aloud env_en [(1, ''Bonjour''), (2, ''Guten Tag'')] (Some 2))
          = concat (map spoken_page
              (zip Vs (pages_read [(1, ''Bonjour''), (2, ''Guten Tag'')] (Some 2))))"
    and v: "\<forall>v. map_of (fst (build_language_voice_map (installed_voices env_en))) default_lang
                  = Some v \<and> v \<noteq> [] \<longrightarrow> Vs ! 0 = v"
    by blast
  have "Vs ! 0 = ''com.apple.voice.compact.en-US.Samantha''" using v h3 by simp
  then have "Vs = [''com.apple.voice.compact.en-US.Samantha'']"
    using l by (cases Vs) (simp_all add: r)
  then have "spoken (read_text_aloud env_en [(1, ''Bonjour''), (2, ''Guten Tag'')] (Some 2))
     = [(''com.apple.voice.compact.en-US.Samantha'', Page_number 2),
        (''com.apple.voice.compact.en-US.Samantha'', Page_text ''Guten Tag'')]"
    using s by (simp add: r)
  with h5 h6 show ?thesis by blast
qed

text \<open>
  The claim as written fails when no installed voice matches the English keywords: the
  voice property is then left as the page before set it. Here the engine starts with the
  German voice, page 1 is French and sets the French voice, page 2 is German, has no
  entry in the map, and is spoken in the French voice.
\<close>

theorem unmapped_language_keeps_previous_voice:
  "fst (build_language_voice_map (installed_voices env_de))
     = [(''fr'', ''com.apple.voice.compact.fr-FR.Thomas'')]
   \<and> fst (detect_language_of_text (detect env_de) ''Guten Tag'') = ''de''
   \<and> engine_voice env_de = ''com.apple.voice.compact.de-DE.Anna''
   \<and> spoken (read_text_aloud env_de [(1, ''Bonjour''), (2, ''Guten Tag'')] None)
       = [(''com.apple.voice.compact.fr-FR.Thomas'', Page_number 1),
          (''com.apple.voice.compact.fr-FR.Thomas'', Page_text ''Bonjour''),
          (''com.apple.voice.compact.fr-FR.Thomas'', Page_number 2),
          (''com.apple.voice.compact.fr-FR.Thomas'', Page_text ''Guten Tag'')]"
  by code_simp

lemma space_isspace: "py_isspace CHR '' ''"
  by (simp add: py_isspace_def)

lemma split_from_word: "ws_free v \<Longrightarrow> split_from w (v @ s) = split_from (w @ v) s"
  by (induction v arbitrary: w) (simp_all add: ws_free_def)

lemma split_from_words:
  "ws_free w \<Longrightarrow> x \<in> set (split_from w s) \<Longrightarrow> x \<noteq> [] \<and> ws_free x"
proof (induction s arbitrary: w)
  case Nil
  then show ?case by (simp split: if_splits)
next
  case (Cons c s)
  show ?case
  proof (cases "py_isspace c")
    case True
    have e: "ws_free []" by (simp add: ws_free_def)
    show ?thesis using Cons.prems Cons.IH [OF e] True
      by (auto split: if_splits)
  next
    case False
    then have "ws_free (w @ [c])" using Cons.prems(1) by (simp add: ws_free_def)
    from Cons.IH [OF this] Cons.prems(2) False show ?thesis by simp
  qed
qed

lemma split_from_Nil_iff: "split_from w s = [] \<longleftrightarrow> w = [] \<and> blank s"
  by (induction s arbitrary: w) (auto simp: blank_def)

lemma py_split_Nil_iff: "py_split s = [] \<longleftrightarrow> blank s"
  by (simp add: py_split_def split_from_Nil_iff)

lemma py_split_words: "x \<in> set (py_split s) \<Longrightarrow> x \<noteq> [] \<and> ws_free x"
  unfolding py_split_def using split_from_words [of "[]" x s] by (simp add: ws_free_def)

lemma split_join:
  "\<forall>x \<in> set ws. x \<noteq> [] \<and> ws_free x \<Longrightarrow> py_split (py_join '' '' ws) = ws"
proof (induction "'' ''" ws rule: py_join.induct)
  case 1
  show ?case by (simp add: py_split_def)
next
  case (2 w)
  then have "w \<noteq> []" "ws_free w" by simp_all
  then show ?case using split_from_word [of w "[]" "[]"] by (simp add: py_split_def)
next
  case (3 w v ws)
  then have w: "w \<noteq> []" "ws_free w" by simp_all
  have "\<forall>x \<in> set (v # ws). x \<noteq> [] \<and> ws_free x" using 3(2) by simp
  from 3(1) [OF this] have ih: "split_from [] (py_join '' '' (v # ws)) = v # ws"
    by (simp add: py_split_def)
  have "split_from [] (w @ CHR '' '' # py_join '' '' (v # ws))
        = split_from w (CHR '' '' # py_join '' '' (v # ws))"
    using split_from_word [OF w(2), of "[]"] by simp
  also have "\<dots> = w # split_from [] (py_join '' '' (v # ws))"
    using w(1) by (simp add: space_isspace)
  finally show ?case by (simp add: py_split_def ih)
qed

lemma collapsed_word: "w \<noteq> [] \<Longrightarrow> ws_free w \<Longrightarrow> collapsed w"
  by (induction w rule: collapsed.induct) (simp_all add: ws_free_def)

lemma collapsed_word_sep:
  "w \<noteq> [] \<Longrightarrow> ws_free w \<Longrightarrow> r \<noteq> [] \<Longrightarrow> collapsed r \<Longrightarrow> collapsed (w @ CHR '' '' # r)"
proof (induction w rule: collapsed.induct)
  case 1
  then show ?case by simp
next
  case (2 c)
  then show ?case by (simp add: ws_free_def space_isspace)
next
  case (3 c d s)
  then show ?case by (simp add: ws_free_def)
qed

lemma join_Nil_iff: "\<forall>x \<in> set ws. x \<noteq> [] \<Longrightarrow> py_join sep ws = [] \<longleftrightarrow> ws = []"
  by (induction sep ws rule: py_join.induct) simp_all

lemma collapsed_join:
  "\<forall>x \<in> set ws. x \<noteq> [] \<and> ws_free x \<Longrightarrow> collapsed (py_join '' '' ws)"
proof (induction "'' ''" ws rule: py_join.induct)
  case 1
  show ?case by simp
next
  case (2 w)
  then show ?case by (simp add: collapsed_word)
next
  case (3 w v ws)
  have g: "\<forall>x \<in> set (v # ws). x \<noteq> [] \<and> ws_free x" using 3(2) by simp
  then have "\<forall>x \<in> set (v # ws). x \<noteq> []" by simp
  from join_Nil_iff [OF this, of "'' ''"] have ne: "py_join '' '' (v # ws) \<noteq> []" by simp
  from collapsed_word_sep [OF _ _ ne 3(1) [OF g], of w] 3(2) show ?case by simp
qed

lemma strip_Nil_iff: "py_strip s = [] \<longleftrightarrow> blank s"
proof -
  have a: "py_strip s = [] \<longleftrightarrow> (\<forall>c \<in> set (dropWhile py_isspace s). py_isspace c)"
    by (simp add: py_strip_def)
  have b: "(\<forall>c \<in> set (dropWhile py_isspace s). py_isspace c) \<longleftrightarrow> dropWhile py_isspace s = []"
    by (metis dropWhile_eq_Nil_conv dropWhile_idem)
  show ?thesis unfolding a b by (simp add: blank_def list_all_iff)
qed

lemma cleaned_props:
  "collapsed (py_join '' '' (py_split r))"
  "py_split (py_join '' '' (py_split r)) = py_split r"
  "blank (py_join '' '' (py_split r)) \<longleftrightarrow> blank r"
proof -
  have g: "\<forall>x \<in> set (py_split r). x \<noteq> [] \<and> ws_free x" using py_split_words by blast
  show "collapsed (py_join '' '' (py_split r))" by (rule collapsed_join [OF g])
  show s: "py_split (py_join '' '' (py_split r)) = py_split r" by (rule split_join [OF g])
  show "blank (py_join '' '' (py_split r)) \<longleftrightarrow> blank r" using s by (metis py_split_Nil_iff)
qed

lemma extract_pages_keys:
  "(n, t) \<in> set (fst (extract_pages i raw)) \<Longrightarrow> i \<le> n \<and> n < i + int (length raw)"
proof (induction raw arbitrary: i)
  case Nil
  then show ?case by simp
next
  case (Cons x raw)
  obtain pages out where e: "extract_pages (i + 1) raw = (pages, out)"
    by (cases "extract_pages (i + 1) raw")
  have "(n, t) \<in> set pages \<or> n = i"
    using Cons.prems by (auto simp: e Let_def split: if_splits)
  then show ?case using Cons.IH [of "i + 1"] e by auto
qed

lemma extract_pages_map_of:
  "k < length raw \<Longrightarrow>
   map_of (fst (extract_pages i raw)) (i + int k) =
     (case raw ! k of None \<Rightarrow> None
      | Some r \<Rightarrow> if blank r then None else Some (py_join '' '' (py_split r)))"
proof (induction raw arbitrary: i k)
  case Nil
  then show ?case by simp
next
  case (Cons x raw)
  obtain pages out where e: "extract_pages (i + 1) raw = (pages, out)"
    by (cases "extract_pages (i + 1) raw")
  have nk: "map_of pages i = None"
  proof (rule ccontr)
    assume "map_of pages i \<noteq> None"
    then obtain t where "(i, t) \<in> set pages" by (auto dest: map_of_SomeD)
    then show False using extract_pages_keys [of i t "i + 1" raw] e by simp
  qed
  have inc: "py_strip (py_join '' '' (py_split r)) \<noteq> [] \<longleftrightarrow> \<not> blank r" for r
    using cleaned_props(3) [of r] by (simp add: strip_Nil_iff)
  show ?case
  proof (cases k)
    case 0
    show ?thesis
    proof (cases x)
      case None
      then show ?thesis using 0 nk by (simp add: e)
    next
      case (Some r)
      then show ?thesis using 0 nk inc [of r] by (auto simp: e Let_def blank_def)
    qed
  next
    case (Suc j)
    then have j: "j < length raw" using Cons.prems by simp
    have ik: "i + int k = i + 1 + int j" "i + int k \<noteq> i" by (simp_all add: Suc)
    have "map_of (fst (extract_pages i (x # raw))) (i + int k) = map_of pages (i + int k)"
      using ik(2) by (auto simp: e Let_def)
    then show ?thesis using Cons.IH [OF j, of "i + 1"] e unfolding ik(1) by (simp add: Suc)
  qed
qed

lemma extract_pages_distinct: "sorted_wrt (<) (map fst (fst (extract_pages i raw)))"
proof (induction raw arbitrary: i)
  case Nil
  show ?case by simp
next
  case (Cons x raw)
  obtain pages out where e: "extract_pages (i + 1) raw = (pages, out)"
    by (cases "extract_pages (i + 1) raw")
  have "\<forall>n \<in> set (map fst pages). i < n"
    using extract_pages_keys [of _ _ "i + 1" raw] e by fastforce
  then show ?case using Cons.IH [of "i + 1"] e by (simp add: Let_def)
qed

lemma extract_pages_diag:
  "e \<in> set (snd (extract_pages i raw)) \<longleftrightarrow>
     (\<exists>k < length raw. e = Print (Page_has_no_text (i + int k))
          \<and> (raw ! k = None \<or> raw ! k = Some []))"
proof (induction raw arbitrary: i)
  case Nil
  show ?case by simp
next
  case (Cons x raw)
  obtain pages out where ex: "extract_pages (i + 1) raw = (pages, out)"
    by (cases "extract_pages (i + 1) raw")
  have ih: "e \<in> set out \<longleftrightarrow>
     (\<exists>k < length raw. e = Print (Page_has_no_text (i + 1 + int k))
          \<and> (raw ! k = None \<or> raw ! k = Some []))"
    using Cons.IH [of "i + 1"] ex by simp
  have sh: "(\<exists>k < length (x # raw). e = Print (Page_has_no_text (i + int k))
          \<and> ((x # raw) ! k = None \<or> (x # raw) ! k = Some [])) \<longleftrightarrow>
        (e = Print (Page_has_no_text i) \<and> (x = None \<or> x = Some [])) \<or>
        (\<exists>k < length raw. e = Print (Page_has_no_text (i + 1 + int k))
          \<and> (raw ! k = None \<or> raw ! k = Some []))"
    (is "?L \<longleftrightarrow> ?A \<or> ?B")
  proof
    assume ?L
    then obtain k where k: "k < length (x # raw)" "e = Print (Page_has_no_text (i + int k))"
      "(x # raw) ! k = None \<or> (x # raw) ! k = Some []" by blast
    show "?A \<or> ?B"
    proof (cases k)
      case 0
      then show ?thesis using k by simp
    next
      case (Suc j)
      then have "j < length raw" "e = Print (Page_has_no_text (i + 1 + int j))"
        "raw ! j = None \<or> raw ! j = Some []" using k by simp_all
      then show ?thesis by blast
    qed
  next
    assume "?A \<or> ?B"
    then show ?L
    proof
      assume ?A
      then have "0 < length (x # raw)" "e = Print (Page_has_no_text (i + int 0))"
        "(x # raw) ! 0 = None \<or> (x # raw) ! 0 = Some []" by simp_all
      then show ?L by blast
    next
      assume ?B
      then obtain j where "j < length raw" "e = Print (Page_has_no_text (i + 1 + int j))"
        "raw ! j = None \<or> raw ! j = Some []" by blast
      then have "Suc j < length (x # raw)" "e = Print (Page_has_no_text (i + int (Suc j)))"
        "(x # raw) ! Suc j = None \<or> (x # raw) ! Suc j = Some []" by simp_all
      then show ?L by blast
    qed
  qed
  have "e \<in> set (snd (extract_pages i (x # raw))) \<longleftrightarrow>
        (e = Print (Page_has_no_text i) \<and> (x = None \<or> x = Some [])) \<or> e \<in> set out"
    by (auto simp: ex Let_def)
  then show ?case unfolding sh ih .
qed


text \<open>
  The extraction, page by page. Opening a PDF that the library can read does not fail.
  The page list is in ascending page order and holds page numbers of the document only.
  For each page, numbered from 1: a page whose extracted text is \<open>None\<close> or empty is left
  out of the list and reported by the "no extractable text" line; a page whose text is
  whitespace only is left out too, with no line printed; any other page is in the list
  once, under its number, with a text that is not empty, has the same words as the
  extracted text, and has whitespace only as single spaces between words.
\<close>

theorem extract_text_pages:
  assumes "files env path = Some (Pdf_pages raw)" and "k < length raw"
  shows "\<exists>pages out.
           extract_text_from_pdf env path = (Inr pages, Open_pdf path # out)
         \<and> sorted_wrt (<) (map fst pages)
         \<and> (\<forall>(n, t) \<in> set pages. 1 \<le> n \<and> n \<le> int (length raw))
         \<and> (Print (Page_has_no_text (1 + int k)) \<in> set out
              \<longleftrightarrow> raw ! k = None \<or> raw ! k = Some [])
         \<and> (case raw ! k of
               None \<Rightarrow> map_of pages (1 + int k) = None
             | Some r \<Rightarrow>
                 if blank r then map_of pages (1 + int k) = None
                 else (\<exists>t. map_of pages (1 + int k) = Some t \<and> t \<noteq> [] \<and> collapsed t
                          \<and> py_split t = py_split r))"
proof -
  obtain pages out where e: "extract_pages 1 raw = (pages, out)"
    by (cases "extract_pages 1 raw")
  have r: "extract_text_from_pdf env path = (Inr pages, Open_pdf path # out)"
    using assms(1) e by (simp add: extract_text_from_pdf_def)
  have s: "sorted_wrt (<) (map fst pages)"
    using extract_pages_distinct [of 1 raw] e by simp
  have d: "Print (Page_has_no_text (1 + int k)) \<in> set out
              \<longleftrightarrow> raw ! k = None \<or> raw ! k = Some []"
    using extract_pages_diag [of "Print (Page_has_no_text (1 + int k))" 1 raw] e assms(2)
    by auto
  have m: "map_of pages (1 + int k) =
     (case raw ! k of None \<Rightarrow> None
      | Some r \<Rightarrow> if blank r then None else Some (py_join '' '' (py_split r)))"
    using extract_pages_map_of [OF assms(2), of 1] e by simp
  have c: "case raw ! k of
               None \<Rightarrow> map_of pages (1 + int k) = None
             | Some r \<Rightarrow>
                 if blank r then map_of pages (1 + int k) = None
                 else (\<exists>t. map_of pages (1 + int k) = Some t \<and> t \<noteq> [] \<and> collapsed t
                          \<and> py_split t = py_split r)"
  proof (cases "raw ! k")
    case None
    then show ?thesis using m by simp
  next
    case (Some x)
    show ?thesis
    proof (cases "blank x")
      case True
      then show ?thesis using m Some by simp
    next
      case False
      then have "py_join '' '' (py_split x) \<noteq> []"
        using cleaned_props(3) [of x] by (auto simp: blank_def)
      then show ?thesis using m Some False cleaned_props(1,2) [of x] by simp
    qed
  qed
  have b: "\<forall>(n, t) \<in> set pages. 1 \<le> n \<and> n \<le> int (length raw)"
    using extract_pages_keys [of _ _ 1 raw] e by fastforce
  from r s b d c show ?thesis by blast
qed

theorem extract_text_pages_witness:
  "extract_text_from_pdf env_ws ''doc.pdf''
     = (Inr [(1, ''Hello world'')],
        [Open_pdf ''doc.pdf'', Print (Page_has_no_text 2), Print (Page_has_no_text 4)])
   \<and> (\<exists>pages out.
         extract_text_from_pdf env_ws ''doc.pdf'' = (Inr pages, Open_pdf ''doc.pdf'' # out)
       \<and> Print (Page_has_no_text 3) \<notin> set out \<and> map_of pages 3 = None)"
proof -
  have h1: "files env_ws ''doc.pdf'' =
      Some (Pdf_pages [Some ('' Hello'' @ [CHR 0x09, CHR 0x0A] @ ''world  ''), None, Some ''  '',
                       Some []])"
    by (simp add: env_ws_def)
  have h2: "(2::nat) < length [Some ('' Hello'' @ [CHR 0x09, CHR 0x0A] @ ''world  ''), None,
                               Some ''  '', Some []]"
    by simp
  have b: "blank ''  ''" by code_simp
  have a: "\<exists>pages out.
         extract_text_from_pdf env_ws ''doc.pdf'' = (Inr pages, Open_pdf ''doc.pdf'' # out)
       \<and> Print (Page_has_no_text 3) \<notin> set out \<and> map_of pages 3 = None"
    using extract_text_pages [OF h1 h2] b by auto
  have e: "extract_text_from_pdf env_ws ''doc.pdf''
     = (Inr [(1, ''Hello world'')],
        [Open_pdf ''doc.pdf'', Print (Page_has_no_text 2), Print (Page_has_no_text 4)])"
    by code_simp
  from a e show ?thesis by blast
qed

text \<open>
  C7. The code at a page whose extracted text is one space: the page is left out of the
  page list, as the claim says, but nothing is printed for it, where the claim asks for
  a diagnostic and the branch for a page with no text prints one.
\<close>

theorem whitespace_page_has_no_diagnostic:
  "files env_blank ''scan.pdf'' = Some (Pdf_pages [Some '' ''])
   \<and> blank '' ''
   \<and> extract_text_from_pdf env_blank ''scan.pdf'' = (Inr [], [Open_pdf ''scan.pdf''])"
proof -
  have a: "files env_blank ''scan.pdf'' = Some (Pdf_pages [Some '' ''])"
    by (simp add: env_blank_def)
  have b: "blank '' ''" by code_simp
  have c: "extract_text_from_pdf env_blank ''scan.pdf'' = (Inr [], [Open_pdf ''scan.pdf''])"
    by code_simp
  from a b c show ?thesis by blast
qed

section \<open>Properties of the annotator\<close>

lemma app_one_opened:
  "app_one = open_pdf ((init_app Map.empty)\<lparr>zoom_var := 2\<rparr>) ''in.pdf'' (Inr two_pages)"
  by (simp add: app_one_def two_pages_def open_pdf_def init_app_def render_page_def no_doc_def
      create_item_def Let_def)

lemma open_pdf_ready:
  assumes "file_path \<noteq> []" "d \<noteq> []"
  shows "doc (open_pdf st file_path (Inr d)) = Some d"
    and "page_index (state (open_pdf st file_path (Inr d))) = 0"
    and "zoom (state (open_pdf st file_path (Inr d))) = zoom_var st"
    and "shown_pages (canvas (open_pdf st file_path (Inr d))) = [0]"
  using assms
  by (simp_all add: open_pdf_def render_page_def no_doc_def create_item_def Let_def)

lemma app_zero_reached:
  "zoom (state app_zero) = 0 \<and> tool (state app_zero) = Draw \<and> doc app_zero = Some two_pages
   \<and> page_index (state app_zero) = 1"
  by (simp add: app_zero_def app_one_def two_pages_def next_page_def render_page_def no_doc_def
      create_item_def Let_def)

text \<open>
  C2, amended. With a zoom factor \<open>Z\<close> other than zero in the view state, a canvas point
  \<open>(x, y)\<close> maps to the document point \<open>(x / Z, y / Z)\<close>. With the zoom factor zero the
  mapping raises \<open>ZeroDivisionError\<close> and returns no point.
\<close>

theorem canvas_to_pdf_divides:
  "(zoom (state st) \<noteq> 0 \<longrightarrow>
      canvas_to_pdf st x y = Inr (x / zoom (state st), y / zoom (state st)))
   \<and> (zoom (state st) = 0 \<longrightarrow> canvas_to_pdf st x y = Inl ZeroDivisionError)"
  by (simp add: canvas_to_pdf_def Let_def)

theorem canvas_to_pdf_divides_witness:
  "zoom (state app_one) = 2 \<and> canvas_to_pdf app_one 3 5 = Inr (3 / 2, 5 / 2)"
  using canvas_to_pdf_divides [of app_one 3 5] by (simp add: app_one_def)

text \<open>
  The claim as written fails at zoom zero, a zoom the view state takes when 0 is typed
  into the zoom field and the page is rendered again: the mapping raises.
\<close>

theorem canvas_to_pdf_raises_at_zero:
  "zoom_var (app_one\<lparr>zoom_var := 0\<rparr>) = 0
   \<and> app_zero = next_page (app_one\<lparr>zoom_var := 0\<rparr>)
   \<and> zoom (state app_zero) = 0
   \<and> canvas_to_pdf app_zero 3 5 = Inl ZeroDivisionError"
  using app_zero_reached by (simp add: canvas_to_pdf_def app_zero_def)

lemma render_page_doc: "doc (render_page st) = doc st"
  by (simp add: render_page_def create_item_def Let_def)

lemma to_pdf_points_ok:
  "zoom (state st) \<noteq> 0 \<Longrightarrow>
   to_pdf_points st ps = Inr (map (\<lambda>(x, y). (x / zoom (state st), y / zoom (state st))) ps)"
  by (induction ps) (auto simp: canvas_to_pdf_def Let_def)

lemma drag_draw:
  assumes "\<not> no_doc st" "tool (state st) = Draw" "last_draw_point st \<noteq> None"
  shows "\<exists>c n l. drag_through st ps =
           st\<lparr>canvas := c, next_item_id := n, last_draw_point := Some l,
              current_stroke_points := current_stroke_points st @ ps\<rparr>"
  using assms
proof (induction ps arbitrary: st)
  case Nil
  then obtain l where "last_draw_point st = Some l" by auto
  then have "st = st\<lparr>canvas := canvas st, next_item_id := next_item_id st,
                     last_draw_point := Some l,
                     current_stroke_points := current_stroke_points st @ []\<rparr>"
    by simp
  then show ?case unfolding drag_through_def by (metis foldl_Nil)
next
  case (Cons p ps)
  let ?st1 = "on_mouse_drag st p"
  have e: "?st1 = st\<lparr>canvas := canvas st @ [(next_item_id st, Ink_tmp (the (last_draw_point st)) p)],
                     next_item_id := next_item_id st + 1, last_draw_point := Some p,
                     current_stroke_points := current_stroke_points st @ [p]\<rparr>"
    using Cons.prems by (simp add: on_mouse_drag_def create_item_def)
  have "\<not> no_doc ?st1" "tool (state ?st1) = Draw" "last_draw_point ?st1 \<noteq> None"
    using Cons.prems by (simp_all add: e no_doc_def)
  from Cons.IH [OF this] obtain c n l where
    "drag_through ?st1 ps =
       ?st1\<lparr>canvas := c, next_item_id := n, last_draw_point := Some l,
            current_stroke_points := current_stroke_points ?st1 @ ps\<rparr>"
    by blast
  then have "drag_through st (p # ps) =
       st\<lparr>canvas := c, next_item_id := n, last_draw_point := Some l,
          current_stroke_points := current_stroke_points st @ p # ps\<rparr>"
    by (simp add: drag_through_def e)
  then show ?case by blast
qed

lemma finalize_short:
  "length (current_stroke_points st) < 2 \<Longrightarrow> finalize_draw_stroke st = Inr st"
  by (simp add: finalize_draw_stroke_def)

lemma finalize_long:
  assumes "doc st = Some d" "d \<noteq> []" "0 \<le> page_index (state st)"
    "page_index (state st) < int (length d)" "zoom (state st) \<noteq> 0"
    "2 \<le> length (current_stroke_points st)"
  shows "\<exists>st'. finalize_draw_stroke st = Inr st' \<and>
     doc st' = Some (d[nat (page_index (state st)) :=
        (d ! nat (page_index (state st)))\<lparr>annots := annots (d ! nat (page_index (state st))) @
           [Ink [map (\<lambda>(x, y). (x / zoom (state st), y / zoom (state st)))
                     (current_stroke_points st)]
                (draw_width (state st))]\<rparr>])"
  using assms
  by (simp add: finalize_draw_stroke_def no_doc_def current_page_def to_pdf_points_ok
      add_annot_def Let_def)

lemma to_pdf_points_zero:
  "zoom (state st) = 0 \<Longrightarrow> ps \<noteq> [] \<Longrightarrow> to_pdf_points st ps = Inl ZeroDivisionError"
  by (cases ps) (auto simp: canvas_to_pdf_def)

lemma finalize_zero:
  assumes "doc st = Some d" "d \<noteq> []" "0 \<le> page_index (state st)"
    "page_index (state st) < int (length d)" "zoom (state st) = 0"
    "2 \<le> length (current_stroke_points st)"
  shows "finalize_draw_stroke st = Inl ZeroDivisionError"
proof -
  have "current_stroke_points st \<noteq> []" using assms(6) by auto
  from to_pdf_points_zero [OF assms(5) this] show ?thesis using assms
    by (simp add: finalize_draw_stroke_def no_doc_def current_page_def Let_def)
qed

lemma draw_gesture_cases:
  assumes "doc st = Some d" and "0 \<le> page_index (state st)"
    and "page_index (state st) < int (length d)"
    and "tool (state st) = Draw"
  shows "(ps = [] \<longrightarrow>
            snd (gesture st p0 ps q) = None \<and> doc (fst (gesture st p0 ps q)) = Some d)
       \<and> (ps \<noteq> [] \<and> zoom (state st) \<noteq> 0 \<longrightarrow>
            snd (gesture st p0 ps q) = None
          \<and> doc (fst (gesture st p0 ps q)) =
            Some (d[nat (page_index (state st)) :=
              (d ! nat (page_index (state st)))\<lparr>annots := annots (d ! nat (page_index (state st))) @
                [Ink [map (\<lambda>(x, y). (x / zoom (state st), y / zoom (state st))) (p0 # ps)]
                     (draw_width (state st))]\<rparr>]))
       \<and> (ps \<noteq> [] \<and> zoom (state st) = 0 \<longrightarrow>
            snd (gesture st p0 ps q) = Some ZeroDivisionError
          \<and> doc (fst (gesture st p0 ps q)) = Some d)"
proof -
  have ne: "d \<noteq> []" using assms(2,3) by auto
  have n: "\<not> no_doc st" using assms(1) ne by (simp add: no_doc_def)
  let ?s1 = "st\<lparr>current_stroke_points := [p0], last_draw_point := Some p0\<rparr>"
  have d1: "fst (on_mouse_down st p0 None) = ?s1"
    using n assms(4) by (simp add: on_mouse_down_def)
  have "\<not> no_doc ?s1" "tool (state ?s1) = Draw" "last_draw_point ?s1 \<noteq> None"
    using n assms(4) by (simp_all add: no_doc_def)
  from drag_draw [OF this, of ps] obtain c k l where
    d2: "drag_through ?s1 ps =
           ?s1\<lparr>canvas := c, next_item_id := k, last_draw_point := Some l,
                current_stroke_points := current_stroke_points ?s1 @ ps\<rparr>"
    by blast
  define s2 where "s2 = drag_through ?s1 ps"
  have s2: "doc s2 = Some d" "state s2 = state st" "current_stroke_points s2 = p0 # ps"
    by (simp_all add: s2_def d2 assms(1))
  have n2: "\<not> no_doc s2" using s2(1) ne by (simp add: no_doc_def)
  have g: "gesture st p0 ps q = on_mouse_up s2 q"
    by (simp add: gesture_def d1 s2_def)
  have a: "snd (gesture st p0 ps q) = None \<and> doc (fst (gesture st p0 ps q)) = Some d"
    if "ps = []"
  proof -
    have "finalize_draw_stroke s2 = Inr s2"
      using finalize_short [of s2] s2(3) that by simp
    then have "gesture st p0 ps q = (render_page (s2\<lparr>last_draw_point := None\<rparr>), None)"
      using n2 s2(2) assms(4) by (simp add: g on_mouse_up_def)
    then show ?thesis by (simp add: render_page_doc s2(1))
  qed
  have len: "2 \<le> length (current_stroke_points s2)" if "ps \<noteq> []"
    using that by (cases ps) (simp_all add: s2(3))
  have b: "snd (gesture st p0 ps q) = None
          \<and> doc (fst (gesture st p0 ps q)) =
            Some (d[nat (page_index (state st)) :=
              (d ! nat (page_index (state st)))\<lparr>annots := annots (d ! nat (page_index (state st))) @
                [Ink [map (\<lambda>(x, y). (x / zoom (state st), y / zoom (state st))) (p0 # ps)]
                     (draw_width (state st))]\<rparr>])"
    if "ps \<noteq> []" "zoom (state st) \<noteq> 0"
  proof -
    from finalize_long [OF s2(1) ne _ _ _ len [OF that(1)]] assms(2,3) that(2) s2(2,3)
    obtain s3 where f: "finalize_draw_stroke s2 = Inr s3"
      and d3: "doc s3 = Some (d[nat (page_index (state st)) :=
              (d ! nat (page_index (state st)))\<lparr>annots := annots (d ! nat (page_index (state st))) @
                [Ink [map (\<lambda>(x, y). (x / zoom (state st), y / zoom (state st))) (p0 # ps)]
                     (draw_width (state st))]\<rparr>])"
      by auto
    have "gesture st p0 ps q = (render_page (s3\<lparr>last_draw_point := None\<rparr>), None)"
      using n2 s2(2) assms(4) f by (simp add: g on_mouse_up_def)
    then show ?thesis using d3 by (simp add: render_page_doc)
  qed
  have z: "snd (gesture st p0 ps q) = Some ZeroDivisionError
          \<and> doc (fst (gesture st p0 ps q)) = Some d"
    if "ps \<noteq> []" "zoom (state st) = 0"
  proof -
    have "finalize_draw_stroke s2 = Inl ZeroDivisionError"
      using finalize_zero [OF s2(1) ne _ _ _ len [OF that(1)]] assms(2,3) that(2) s2(2) by simp
    then have "gesture st p0 ps q = (s2, Some ZeroDivisionError)"
      using n2 s2(2) assms(4) by (simp add: g on_mouse_up_def)
    then show ?thesis by (simp add: s2(1))
  qed
  from a b z show ?thesis by blast
qed

text \<open>
  C3, amended. A draw gesture on an open page: the button goes down at \<open>p0\<close>, the pointer
  is dragged through \<open>ps\<close>, the button goes up. The recorded points are \<open>p0\<close> and \<open>ps\<close>.
  With no drag (one recorded point) nothing is raised and the document is unchanged. With
  two or more recorded points and a zoom other than zero nothing is raised and the current
  page gets exactly one more annotation, an ink annotation of one stroke holding every
  recorded point, in order, divided by the zoom; the other pages are unchanged. With two
  or more recorded points and the zoom zero the division raises and the document is
  unchanged.
\<close>

theorem draw_gesture:
  assumes "doc st = Some d" and "0 \<le> page_index (state st)"
    and "page_index (state st) < int (length d)"
    and "tool (state st) = Draw"
  shows "(ps = [] \<longrightarrow>
            snd (gesture st p0 ps q) = None \<and> doc (fst (gesture st p0 ps q)) = Some d)
       \<and> (ps \<noteq> [] \<and> zoom (state st) \<noteq> 0 \<longrightarrow>
            snd (gesture st p0 ps q) = None
          \<and> doc (fst (gesture st p0 ps q)) =
            Some (d[nat (page_index (state st)) :=
              (d ! nat (page_index (state st)))\<lparr>annots := annots (d ! nat (page_index (state st))) @
                [Ink [map (\<lambda>(x, y). (x / zoom (state st), y / zoom (state st))) (p0 # ps)]
                     (draw_width (state st))]\<rparr>]))
       \<and> (ps \<noteq> [] \<and> zoom (state st) = 0 \<longrightarrow>
            snd (gesture st p0 ps q) = Some ZeroDivisionError
          \<and> doc (fst (gesture st p0 ps q)) = Some d)"
  using assms by (rule draw_gesture_cases)

theorem draw_gesture_witness:
  "doc app_one = Some two_pages \<and> page_index (state app_one) = 0
   \<and> tool (state app_one) = Draw \<and> zoom (state app_one) = 2
   \<and> doc (fst (gesture app_one (2, 4) [] (2, 4))) = Some two_pages
   \<and> doc (fst (gesture app_one (2, 4) [(6, 8), (7, 9)] (7, 9))) =
       Some [\<lparr>content = ''page one'', annots = [Ink [[(1, 2), (3, 4), (7 / 2, 9 / 2)]] 2]\<rparr>,
             \<lparr>content = ''page two'', annots = []\<rparr>]"
proof -
  have h: "doc app_one = Some two_pages" "0 \<le> page_index (state app_one)"
    "page_index (state app_one) < int (length two_pages)"
    "tool (state app_one) = Draw"
    by (simp_all add: app_one_def two_pages_def)
  have v: "page_index (state app_one) = 0" "zoom (state app_one) = 2"
    "draw_width (state app_one) = 2"
    by (simp_all add: app_one_def)
  show ?thesis
    using draw_gesture [OF h, of "[]" "(2, 4)" "(2, 4)"]
      draw_gesture [OF h, of "[(6, 8), (7, 9)]" "(2, 4)" "(7, 9)"] h(1,4) v
    by (simp add: two_pages_def)
qed

text \<open>
  The claim as written fails at zoom zero: a stroke of three recorded points raises
  \<open>ZeroDivisionError\<close> when it is finalized, and no annotation is added.
\<close>

theorem draw_gesture_raises_at_zero:
  "zoom (state app_zero) = 0 \<and> tool (state app_zero) = Draw
   \<and> snd (gesture app_zero (2, 4) [(6, 8), (7, 9)] (7, 9)) = Some ZeroDivisionError
   \<and> doc (fst (gesture app_zero (2, 4) [(6, 8), (7, 9)] (7, 9))) = Some two_pages"
proof -
  have h: "doc app_zero = Some two_pages" "0 \<le> page_index (state app_zero)"
    "page_index (state app_zero) < int (length two_pages)"
    "tool (state app_zero) = Draw"
    using app_zero_reached by (simp_all add: two_pages_def)
  show ?thesis
    using draw_gesture_cases [OF h, of "[(6, 8), (7, 9)]" "(2, 4)" "(7, 9)"] app_zero_reached
    by simp
qed

lemma sort_pair: "sort [a, b] = [min a b, max a b]" for a b :: real
  by (auto simp: min_def max_def)

lemma add_highlight_rect_commute:
  "add_highlight_rect st x0 y0 x1 y1 = add_highlight_rect st x1 y1 x0 y0"
proof -
  have s: "sort [a, b] = sort [b, a]" for a b :: real by auto
  show ?thesis by (simp only: add_highlight_rect_def s [of x0 x1] s [of y0 y1])
qed

lemma add_highlight_rect_norm:
  "add_highlight_rect st x0 y0 x1 y1
   = add_highlight_rect st (min x0 x1) (min y0 y1) (max x0 x1) (max y0 y1)"
proof -
  have s: "sort [min a b, max a b] = sort [a, b]" for a b :: real
    by (auto simp: min_def max_def)
  show ?thesis by (simp only: add_highlight_rect_def s [of x0 x1] s [of y0 y1])
qed

lemma add_highlight_rect_core:
  assumes "doc s = doc t" "state s = state t"
  shows "outcome (add_highlight_rect s a b c d) (doc s)
         = outcome (add_highlight_rect t a b c d) (doc t)"
  using assms
  by (simp add: outcome_def add_highlight_rect_def no_doc_def current_page_def canvas_to_pdf_def
      add_annot_def Let_def split: sum.splits)

lemma on_mouse_drag_highlight:
  assumes "tool (state st) = Highlight"
  shows "\<exists>c. on_mouse_drag st p = st\<lparr>canvas := c\<rparr>"
proof -
  have "st = st\<lparr>canvas := canvas st\<rparr>" by simp
  then show ?thesis unfolding on_mouse_drag_def using assms
    by (metis tool.distinct(1))
qed

lemma drag_highlight:
  "tool (state st) = Highlight \<Longrightarrow> \<exists>c. drag_through st ps = st\<lparr>canvas := c\<rparr>"
proof (induction ps arbitrary: st)
  case Nil
  have "st = st\<lparr>canvas := canvas st\<rparr>" by simp
  then show ?case unfolding drag_through_def by (metis foldl_Nil)
next
  case (Cons p ps)
  from on_mouse_drag_highlight [OF Cons.prems, of p] obtain c where
    c: "on_mouse_drag st p = st\<lparr>canvas := c\<rparr>" by blast
  have "tool (state (st\<lparr>canvas := c\<rparr>)) = Highlight" using Cons.prems by simp
  from Cons.IH [OF this] obtain c' where
    "drag_through (st\<lparr>canvas := c\<rparr>) ps = st\<lparr>canvas := c'\<rparr>"
    by auto
  then have "drag_through st (p # ps) = st\<lparr>canvas := c'\<rparr>"
    by (simp add: drag_through_def c)
  then show ?case by blast
qed

lemma highlight_gesture_outcome:
  assumes "tool (state st) = Highlight"
  shows "(doc (fst (gesture st p0 ps p1)), snd (gesture st p0 ps p1))
         = outcome (add_highlight_rect st (fst p0) (snd p0) (fst p1) (snd p1)) (doc st)"
proof (cases "no_doc st")
  case True
  then have "fst (on_mouse_down st p0 None) = st" by (simp add: on_mouse_down_def)
  moreover have "drag_through st ps = st" using True
    unfolding drag_through_def by (induction ps) (simp_all add: on_mouse_drag_def)
  ultimately have "gesture st p0 ps p1 = (st, None)"
    using True by (simp add: gesture_def on_mouse_up_def)
  then show ?thesis using True by (simp add: outcome_def add_highlight_rect_def)
next
  case False
  define s1 where "s1 = fst (on_mouse_down st p0 None)"
  have s1: "doc s1 = doc st" "state s1 = state st" "drag_start s1 = Some p0"
    using False assms by (simp_all add: s1_def on_mouse_down_def create_item_def)
  from drag_highlight [of s1 ps] s1(2) assms obtain c where
    c: "drag_through s1 ps = s1\<lparr>canvas := c\<rparr>" by auto
  define s2 where "s2 = drag_through s1 ps"
  have s2: "doc s2 = doc st" "state s2 = state st" "drag_start s2 = Some p0"
    by (simp_all add: s2_def c s1)
  have n2: "\<not> no_doc s2" using False by (simp add: no_doc_def s2(1))
  define s3 where "s3 = (let st1 = s2\<lparr>drag_start := None\<rparr> in
                 if rect_id_set st1
                 then st1\<lparr>canvas := filter (\<lambda>(i, item).
                             i \<noteq> the (current_highlight_rect_id st1)) (canvas st1),
                           current_highlight_rect_id := None\<rparr>
                 else st1)"
  have s3: "doc s3 = doc st" "state s3 = state st"
    by (simp_all add: s3_def Let_def s2)
  have up: "on_mouse_up s2 p1 =
     (case add_highlight_rect s3 (fst p0) (snd p0) (fst p1) (snd p1) of
        Inl e \<Rightarrow> (s3, Some e) | Inr st3 \<Rightarrow> (render_page st3, None))"
    unfolding on_mouse_up_def s3_def Let_def
    using n2 s2(2,3) assms by (simp add: case_prod_beta split: sum.splits)
  have "(doc (fst (on_mouse_up s2 p1)), snd (on_mouse_up s2 p1))
        = outcome (add_highlight_rect s3 (fst p0) (snd p0) (fst p1) (snd p1)) (doc s3)"
    by (simp add: up outcome_def render_page_doc split: sum.splits)
  also have "\<dots> = outcome (add_highlight_rect st (fst p0) (snd p0) (fst p1) (snd p1)) (doc st)"
    using add_highlight_rect_core [OF s3] .
  finally show ?thesis by (simp add: gesture_def s1_def s2_def)
qed

lemma add_highlight_rect_cases:
  assumes "doc st = Some d" "0 \<le> page_index (state st)" "page_index (state st) < int (length d)"
  shows "add_highlight_rect st x0 y0 x1 y1 =
    (if zoom (state st) = 0 then Inl ZeroDivisionError
     else if rect_is_empty (min x0 x1 / zoom (state st)) (min y0 y1 / zoom (state st))
                           (max x0 x1 / zoom (state st)) (max y0 y1 / zoom (state st))
     then Inl ValueError
     else Inr (add_annot st
            (Highlight_annot (min x0 x1 / zoom (state st)) (min y0 y1 / zoom (state st))
                             (max x0 x1 / zoom (state st)) (max y0 y1 / zoom (state st)))))"
proof -
  have "d \<noteq> []" using assms(2,3) by auto
  then show ?thesis using assms
    by (simp add: add_highlight_rect_def no_doc_def current_page_def canvas_to_pdf_def sort_pair
        Let_def)
qed

text \<open>
  C4. With the highlight tool, a gesture from \<open>(x0, y0)\<close> to \<open>(x1, y1)\<close> and a gesture from
  \<open>(x1, y1)\<close> to \<open>(x0, y0)\<close> leave the same document and raise the same exception or none,
  whatever the pointer passed through, whatever the corners and whatever the zoom; and
  both leave the document that a gesture from the corner of the two minima to the corner
  of the two maxima leaves. On an open page the rectangle handed to the library is
  \<open>(min x0 x1 / Z, min y0 y1 / Z, max x0 x1 / Z, max y0 y1 / Z)\<close>: at zoom zero the
  division raises, an empty rectangle is refused by the library, and in both cases the
  document is unchanged; otherwise the current page gets one highlight annotation with
  that rectangle.
\<close>

theorem highlight_normalized:
  assumes "tool (state st) = Highlight"
  shows "doc (fst (gesture st (x0, y0) ps (x1, y1))) = doc (fst (gesture st (x1, y1) ps' (x0, y0)))
       \<and> snd (gesture st (x0, y0) ps (x1, y1)) = snd (gesture st (x1, y1) ps' (x0, y0))
       \<and> doc (fst (gesture st (x0, y0) ps (x1, y1)))
           = doc (fst (gesture st (min x0 x1, min y0 y1) ps' (max x0 x1, max y0 y1)))
       \<and> (doc st = Some d \<and> 0 \<le> page_index (state st) \<and> page_index (state st) < int (length d)
            \<longrightarrow>
          (doc (fst (gesture st (x0, y0) ps (x1, y1))), snd (gesture st (x0, y0) ps (x1, y1))) =
            (if zoom (state st) = 0 then (Some d, Some ZeroDivisionError)
             else if rect_is_empty (min x0 x1 / zoom (state st)) (min y0 y1 / zoom (state st))
                                   (max x0 x1 / zoom (state st)) (max y0 y1 / zoom (state st))
             then (Some d, Some ValueError)
             else (Some (d[nat (page_index (state st)) :=
                    (d ! nat (page_index (state st)))\<lparr>annots :=
                       annots (d ! nat (page_index (state st))) @
                       [Highlight_annot (min x0 x1 / zoom (state st)) (min y0 y1 / zoom (state st))
                                        (max x0 x1 / zoom (state st))
                                        (max y0 y1 / zoom (state st))]\<rparr>]),
                   None)))"
proof -
  note g = highlight_gesture_outcome [OF assms]
  have e: "(doc (fst (gesture st (x0, y0) ps (x1, y1))), snd (gesture st (x0, y0) ps (x1, y1)))
         = (doc (fst (gesture st (x1, y1) ps' (x0, y0))), snd (gesture st (x1, y1) ps' (x0, y0)))"
    using add_highlight_rect_commute [of st x0 y0 x1 y1]
    by (simp only: g fst_conv snd_conv)
  have m: "(doc (fst (gesture st (x0, y0) ps (x1, y1))), snd (gesture st (x0, y0) ps (x1, y1)))
         = (doc (fst (gesture st (min x0 x1, min y0 y1) ps' (max x0 x1, max y0 y1))),
            snd (gesture st (min x0 x1, min y0 y1) ps' (max x0 x1, max y0 y1)))"
    using add_highlight_rect_norm [of st x0 y0 x1 y1]
    by (simp only: g fst_conv snd_conv)
  have b: "(doc (fst (gesture st (x0, y0) ps (x1, y1))), snd (gesture st (x0, y0) ps (x1, y1))) =
            (if zoom (state st) = 0 then (Some d, Some ZeroDivisionError)
             else if rect_is_empty (min x0 x1 / zoom (state st)) (min y0 y1 / zoom (state st))
                                   (max x0 x1 / zoom (state st)) (max y0 y1 / zoom (state st))
             then (Some d, Some ValueError)
             else (Some (d[nat (page_index (state st)) :=
                    (d ! nat (page_index (state st)))\<lparr>annots :=
                       annots (d ! nat (page_index (state st))) @
                       [Highlight_annot (min x0 x1 / zoom (state st)) (min y0 y1 / zoom (state st))
                                        (max x0 x1 / zoom (state st))
                                        (max y0 y1 / zoom (state st))]\<rparr>]),
                   None))"
    if h: "doc st = Some d" "0 \<le> page_index (state st)" "page_index (state st) < int (length d)"
    unfolding g using h(1)
    by (simp add: add_highlight_rect_cases [OF h] outcome_def add_annot_def Let_def)
  from e m b show ?thesis by simp
qed

theorem highlight_normalized_witness:
  "tool (state app_hl) = Highlight \<and> doc app_hl = Some two_pages
   \<and> page_index (state app_hl) = 0 \<and> zoom (state app_hl) = 2
   \<and> doc (fst (gesture app_hl (50, 50) [(30, 20)] (10, 10)))
       = doc (fst (gesture app_hl (10, 10) [] (50, 50)))
   \<and> doc (fst (gesture app_hl (50, 50) [(30, 20)] (10, 10))) =
       Some [\<lparr>content = ''page one'', annots = [Highlight_annot 5 5 25 25]\<rparr>,
             \<lparr>content = ''page two'', annots = []\<rparr>]
   \<and> snd (gesture app_hl (50, 50) [(30, 20)] (10, 10)) = None
   \<and> doc (fst (gesture app_hl (10, 10) [] (10, 10))) = Some two_pages
   \<and> snd (gesture app_hl (10, 10) [] (10, 10)) = Some ValueError"
proof -
  have h: "tool (state app_hl) = Highlight" by (simp add: app_hl_def)
  have v: "doc app_hl = Some two_pages" "page_index (state app_hl) = 0" "zoom (state app_hl) = 2"
    by (simp_all add: app_hl_def app_one_def)
  note t = highlight_normalized [OF h, of 50 50 "[(30, 20)]" 10 10 "[]" two_pages]
  note u = highlight_normalized [OF h, of 10 10 "[]" 10 10 "[]" two_pages]
  have e: "doc (fst (gesture app_hl (50, 50) [(30, 20)] (10, 10)))
             = doc (fst (gesture app_hl (10, 10) [] (50, 50)))"
    using t by (rule conjunct1)
  have r: "(doc (fst (gesture app_hl (50, 50) [(30, 20)] (10, 10))),
            snd (gesture app_hl (50, 50) [(30, 20)] (10, 10))) =
       (Some [\<lparr>content = ''page one'', annots = [Highlight_annot 5 5 25 25]\<rparr>,
              \<lparr>content = ''page two'', annots = []\<rparr>], None)"
    using conjunct2 [OF conjunct2 [OF conjunct2 [OF t]]] v
    by (simp add: two_pages_def rect_is_empty_def)
  have c: "(doc (fst (gesture app_hl (10, 10) [] (10, 10))),
            snd (gesture app_hl (10, 10) [] (10, 10))) = (Some two_pages, Some ValueError)"
    using conjunct2 [OF conjunct2 [OF conjunct2 [OF u]]] v
    by (simp add: two_pages_def rect_is_empty_def)
  from h v e r c show ?thesis by simp
qed

text \<open>
  C5, amended. With a document open and a path chosen, a save that succeeds leaves the
  whole document in memory, annotations included, in the file at that path and tells the
  user; a save that raises shows the message of the exception and leaves the session as
  it was, with the document open; whatever the failed call left at the path stays there.
  An open that raises shows the message and changes nothing else.
\<close>

theorem save_and_open_failures:
  assumes "doc st = Some d" and "d \<noteq> []" and "pdf_path st \<noteq> None" and "out_path \<noteq> []"
  shows "disk (save_as st out_path Save_ok) out_path = Some (Pdf_document d)
       \<and> dialogs (save_as st out_path Save_ok) = dialogs st @ [Saved out_path]
       \<and> dialogs (save_as st out_path (Save_raises msg left)) = dialogs st @ [Save_failed msg]
       \<and> doc (save_as st out_path (Save_raises msg left)) = Some d
       \<and> state (save_as st out_path (Save_raises msg left)) = state st
       \<and> disk (save_as st out_path (Save_raises msg left)) out_path
           = (case left of None \<Rightarrow> disk st out_path | Some x \<Rightarrow> Some x)
       \<and> (file_path \<noteq> [] \<longrightarrow>
            open_pdf st file_path (Inl msg) = st\<lparr>dialogs := dialogs st @ [Open_failed msg]\<rparr>)"
  using assms by (simp add: save_as_def open_pdf_def no_doc_def split: option.splits)

theorem save_and_open_failures_witness:
  "doc app_one = Some two_pages \<and> pdf_path app_one = Some ''in.pdf''
   \<and> disk (save_as app_one ''out.pdf'' Save_ok) ''out.pdf'' = Some (Pdf_document two_pages)
   \<and> dialogs (save_as app_one ''out.pdf'' (Save_raises ''disk full'' None)) = [Save_failed ''disk full'']
   \<and> disk (save_as app_one ''out.pdf'' (Save_raises ''disk full'' None)) ''out.pdf'' = None
   \<and> open_pdf app_one ''x.pdf'' (Inl ''no such file'')
       = app_one\<lparr>dialogs := [Open_failed ''no such file'']\<rparr>"
proof -
  have h: "doc app_one = Some two_pages" "two_pages \<noteq> []" "pdf_path app_one \<noteq> None"
    "''out.pdf'' \<noteq> []"
    by (simp_all add: app_one_def two_pages_def)
  have v: "pdf_path app_one = Some ''in.pdf''" "dialogs app_one = []"
    "disk app_one ''out.pdf'' = None"
    by (simp_all add: app_one_def)
  show ?thesis
    using save_and_open_failures [OF h, of "''disk full''" None "''x.pdf''"]
      save_and_open_failures [OF h, of "''no such file''" None "''x.pdf''"] h(1) v
    by simp
qed

text \<open>
  The claim as written fails: when the library's write raises after having put data at
  the chosen path, \<open>save_as\<close> shows the message and the partial file is still there.
\<close>

theorem save_leaves_partial_file:
  "disk app_one ''out.pdf'' = None
   \<and> disk (save_as app_one ''out.pdf'' (Save_raises ''No space left on device''
             (Some Partial_output))) ''out.pdf'' = Some Partial_output"
  by (simp add: save_as_def no_doc_def app_one_def two_pages_def)

lemma render_page_shown:
  assumes "doc st = Some d" "d \<noteq> []"
  shows "shown_pages (canvas (render_page st)) = [page_index (state (render_page st))]"
    and "page_index (state (render_page st))
         = max 0 (min (page_index (state st)) (int (length d) - 1))"
  using assms by (simp_all add: render_page_def create_item_def Let_def no_doc_def)

lemma nav_step_doc: "doc (nav_step st ev) = doc st"
  by (cases ev) (simp_all add: prev_page_def next_page_def render_page_doc)

lemma nav_step_shown:
  assumes "doc st = Some d" "d \<noteq> []"
  shows "shown_pages (canvas (nav_step st ev)) = [page_index (state (nav_step st ev))]
       \<and> 0 \<le> page_index (state (nav_step st ev))
       \<and> page_index (state (nav_step st ev)) \<le> int (length d) - 1"
proof -
  have n: "\<not> no_doc st" using assms by (simp add: no_doc_def)
  have l: "0 < length d" using assms by simp
  show ?thesis
  proof (cases ev)
    case Prev
    let ?s = "st\<lparr>state := (state st)\<lparr>page_index := page_index (state st) - 1\<rparr>\<rparr>"
    have "doc ?s = Some d" using assms by simp
    from render_page_shown [OF this assms(2)] show ?thesis
      using n l by (simp add: Prev prev_page_def)
  next
    case Next
    let ?s = "st\<lparr>state := (state st)\<lparr>page_index := page_index (state st) + 1\<rparr>\<rparr>"
    have "doc ?s = Some d" using assms by simp
    from render_page_shown [OF this assms(2)] show ?thesis
      using n l by (simp add: Next next_page_def)
  qed
qed

lemma navigate_doc: "doc (navigate st evs) = doc st"
  unfolding navigate_def by (induction evs arbitrary: st) (simp_all add: nav_step_doc)

lemma navigate_snoc: "navigate st (evs @ [ev]) = nav_step (navigate st evs) ev"
  by (simp add: navigate_def)

text \<open>
  C9. With a document of at least one page open, after any non-empty sequence of prev and
  next events the canvas shows exactly one page image, that of the page index of the view
  state, and this index lies between 0 and the page count minus one. Prev at index 0
  shows page 0 again, and next at the last index shows the last page again.
\<close>

theorem navigation_clamped:
  assumes "doc st = Some d" and "d \<noteq> []"
  shows "(evs \<noteq> [] \<longrightarrow>
            shown_pages (canvas (navigate st evs)) = [page_index (state (navigate st evs))]
          \<and> 0 \<le> page_index (state (navigate st evs))
          \<and> page_index (state (navigate st evs)) \<le> int (length d) - 1)
       \<and> (page_index (state st) = 0 \<longrightarrow>
            shown_pages (canvas (prev_page st)) = [0] \<and> page_index (state (prev_page st)) = 0)
       \<and> (page_index (state st) = int (length d) - 1 \<longrightarrow>
            shown_pages (canvas (next_page st)) = [int (length d) - 1]
          \<and> page_index (state (next_page st)) = int (length d) - 1)"
proof -
  have a: "evs \<noteq> [] \<longrightarrow>
            shown_pages (canvas (navigate st evs)) = [page_index (state (navigate st evs))]
          \<and> 0 \<le> page_index (state (navigate st evs))
          \<and> page_index (state (navigate st evs)) \<le> int (length d) - 1"
  proof (cases evs rule: rev_cases)
    case Nil
    then show ?thesis by simp
  next
    case (snoc es e)
    have "doc (navigate st es) = Some d" using assms by (simp add: navigate_doc)
    from nav_step_shown [OF this assms(2), of e] show ?thesis
      by (simp add: snoc navigate_snoc)
  qed
  have l: "0 < length d" using assms by simp
  have n: "\<not> no_doc st" using assms by (simp add: no_doc_def)
  have b: "page_index (state st) = 0 \<longrightarrow>
            shown_pages (canvas (prev_page st)) = [0] \<and> page_index (state (prev_page st)) = 0"
  proof
    assume z: "page_index (state st) = 0"
    let ?s = "st\<lparr>state := (state st)\<lparr>page_index := page_index (state st) - 1\<rparr>\<rparr>"
    have ds: "doc ?s = Some d" using assms by simp
    have "page_index (state (render_page ?s)) = 0"
      using render_page_shown(2) [OF ds assms(2)] z l by simp
    then show "shown_pages (canvas (prev_page st)) = [0] \<and> page_index (state (prev_page st)) = 0"
      using render_page_shown(1) [OF ds assms(2)] n by (simp add: prev_page_def)
  qed
  have c: "page_index (state st) = int (length d) - 1 \<longrightarrow>
            shown_pages (canvas (next_page st)) = [int (length d) - 1]
          \<and> page_index (state (next_page st)) = int (length d) - 1"
  proof
    assume z: "page_index (state st) = int (length d) - 1"
    let ?s = "st\<lparr>state := (state st)\<lparr>page_index := page_index (state st) + 1\<rparr>\<rparr>"
    have ds: "doc ?s = Some d" using assms by simp
    have "page_index (state (render_page ?s)) = int (length d) - 1"
      using render_page_shown(2) [OF ds assms(2)] z l by simp
    then show "shown_pages (canvas (next_page st)) = [int (length d) - 1]
          \<and> page_index (state (next_page st)) = int (length d) - 1"
      using render_page_shown(1) [OF ds assms(2)] n by (simp add: next_page_def)
  qed
  from a b c show ?thesis by blast
qed

theorem navigation_clamped_witness:
  "doc app_one = Some two_pages \<and> two_pages \<noteq> [] \<and> page_index (state app_one) = 0
   \<and> shown_pages (canvas (prev_page app_one)) = [0]
   \<and> shown_pages (canvas (navigate app_one [Next, Next, Prev, Next, Next]))
       = [page_index (state (navigate app_one [Next, Next, Prev, Next, Next]))]
   \<and> 0 \<le> page_index (state (navigate app_one [Next, Next, Prev, Next, Next]))
   \<and> page_index (state (navigate app_one [Next, Next, Prev, Next, Next])) \<le> 1"
proof -
  have h: "doc app_one = Some two_pages" "two_pages \<noteq> []"
    by (simp_all add: app_one_def two_pages_def)
  have v: "page_index (state app_one) = 0" "int (length two_pages) - 1 = 1"
    by (simp_all add: app_one_def two_pages_def)
  show ?thesis
    using navigation_clamped [OF h, of "[Next, Next, Prev, Next, Next]"] h v by simp
qed

section \<open>Properties of the merger\<close>

lemma writes_append: "writes (xs @ ys) = writes xs @ writes ys"
  by (induction xs rule: writes.induct) simp_all

lemma writes_listed: "writes (map (\<lambda>(name, f). Printed (Listed name)) fl) = []"
  by (induction fl) (simp_all add: case_prod_beta)

lemma append_all_readable:
  "\<forall>(name, f) \<in> set fl. f \<noteq> Malformed \<Longrightarrow>
   append_all acc fl = (Inr (acc @ concat (map (pages_of \<circ> snd) fl)),
                        map (\<lambda>(name, f). Printed (Listed name)) fl)"
proof (induction fl arbitrary: acc)
  case Nil
  show ?case by simp
next
  case (Cons a fl)
  obtain name f where a: "a = (name, f)" by (cases a)
  with Cons.prems obtain ps where f: "f = Readable ps" by (cases f) auto
  have "\<forall>(name, f) \<in> set fl. f \<noteq> Malformed" using Cons.prems by simp
  from Cons.IH [OF this, of "acc @ ps"] show ?case by (simp add: a f)
qed

lemma append_all_malformed:
  "\<exists>(name, f) \<in> set fl. f = Malformed \<Longrightarrow>
   fst (append_all acc fl) = Inl PdfReadError \<and> writes (snd (append_all acc fl)) = []"
proof (induction fl arbitrary: acc)
  case Nil
  then show ?case by simp
next
  case (Cons a fl)
  obtain name f where a: "a = (name, f)" by (cases a)
  show ?case
  proof (cases f)
    case Malformed
    then show ?thesis by (simp add: a)
  next
    case (Readable ps)
    then have "\<exists>(name, f) \<in> set fl. f = Malformed" using Cons.prems a by auto
    from Cons.IH [OF this, of "acc @ ps"] show ?thesis
      by (simp add: a Readable case_prod_beta)
  qed
qed

lemma sum_pages:
  "length (concat (map (pages_of \<circ> snd) fl)) = sum_list (map (length \<circ> pages_of \<circ> snd) fl)"
  by (induction fl) simp_all

lemma sort_key_Nil_iff: "sort_key f xs = [] \<longleftrightarrow> xs = []"
  by (metis length_0_conv length_sort)

text \<open>
  C1, amended. \<open>merge_pdfs\<close> writes an output file exactly when at least one file of the
  input directory matches \<open>*.pdf\<close> and every matching file is a readable PDF document.
  With no match it prints that no file was found and changes nothing. With matching
  files that are all readable it writes one document under the output name: the pages
  of the matching files, file after file in the order of their names (the sorted list is
  a rearrangement of the matching files with ascending names), so that its page count is
  the sum of theirs.
\<close>

theorem merge_pdfs_writes:
  "(writes (snd (merge_pdfs output_name fs)) \<noteq> []
      \<longleftrightarrow> glob_pdf fs \<noteq> [] \<and> (\<forall>(name, f) \<in> set (glob_pdf fs). f \<noteq> Malformed))
   \<and> set (glob_pdf fs) = {(name, f). (name, f) \<in> set (input_dir fs) \<and> matches_pdf name}
   \<and> (glob_pdf fs = [] \<longrightarrow>
        merge_pdfs output_name fs = (fs, [Printed No_pdf_files_found]))
   \<and> (glob_pdf fs \<noteq> [] \<and> (\<forall>(name, f) \<in> set (glob_pdf fs). f \<noteq> Malformed) \<longrightarrow>
        writes (snd (merge_pdfs output_name fs))
          = [(output_name, concat (map (pages_of \<circ> snd) (sort_key fst (glob_pdf fs))))]
      \<and> (\<exists>dir. output_dir (fst (merge_pdfs output_name fs)) = Some dir \<and>
            dir output_name
              = Some (concat (map (pages_of \<circ> snd) (sort_key fst (glob_pdf fs)))))
      \<and> sorted (map fst (sort_key fst (glob_pdf fs)))
      \<and> mset (sort_key fst (glob_pdf fs)) = mset (glob_pdf fs)
      \<and> length (concat (map (pages_of \<circ> snd) (sort_key fst (glob_pdf fs))))
          = sum_list (map (length \<circ> pages_of \<circ> snd) (glob_pdf fs)))"
proof -
  let ?pdfs = "sort_key fst (glob_pdf fs)"
  let ?ok = "\<forall>(name, f) \<in> set (glob_pdf fs). f \<noteq> Malformed"
  have g: "set (glob_pdf fs) = {(name, f). (name, f) \<in> set (input_dir fs) \<and> matches_pdf name}"
    by (auto simp: glob_pdf_def)
  have e: "merge_pdfs output_name fs = (fs, [Printed No_pdf_files_found])" if "glob_pdf fs = []"
    using that by (simp add: merge_pdfs_def)
  have w: "writes (snd (merge_pdfs output_name fs))
              = [(output_name, concat (map (pages_of \<circ> snd) ?pdfs))]"
    and o: "\<exists>dir. output_dir (fst (merge_pdfs output_name fs)) = Some dir \<and>
                dir output_name = Some (concat (map (pages_of \<circ> snd) ?pdfs))"
    if "glob_pdf fs \<noteq> []" "?ok"
  proof -
    have r: "\<forall>(name, f) \<in> set ?pdfs. f \<noteq> Malformed" using that(2) by simp
    show "writes (snd (merge_pdfs output_name fs))
              = [(output_name, concat (map (pages_of \<circ> snd) ?pdfs))]"
      and "\<exists>dir. output_dir (fst (merge_pdfs output_name fs)) = Some dir \<and>
                dir output_name = Some (concat (map (pages_of \<circ> snd) ?pdfs))"
      using that(1) append_all_readable [OF r, of "[]"]
      by (simp_all add: merge_pdfs_def sort_key_Nil_iff Let_def writes_append writes_listed)
  qed
  have b: "writes (snd (merge_pdfs output_name fs)) = []" if "\<not> ?ok"
  proof -
    have ne: "glob_pdf fs \<noteq> []" using that by auto
    have m: "\<exists>(name, f) \<in> set ?pdfs. f = Malformed" using that by auto
    obtain res out where a: "append_all [] ?pdfs = (res, out)"
      by (cases "append_all [] ?pdfs")
    have "res = Inl PdfReadError" "writes out = []"
      using append_all_malformed [OF m, of "[]"] a by simp_all
    then show ?thesis
      using ne by (simp add: merge_pdfs_def sort_key_Nil_iff Let_def a writes_append)
  qed
  have s: "sum_list (map (length \<circ> pages_of \<circ> snd) ?pdfs)
           = sum_list (map (length \<circ> pages_of \<circ> snd) (glob_pdf fs))"
    by (metis mset_map mset_sort sum_mset_sum_list)
  have i: "writes (snd (merge_pdfs output_name fs)) \<noteq> [] \<longleftrightarrow> glob_pdf fs \<noteq> [] \<and> ?ok"
  proof (cases "glob_pdf fs = []")
    case True
    then show ?thesis using e by simp
  next
    case False
    then show ?thesis using w b by (cases ?ok) simp_all
  qed
  from i g e w o s show ?thesis by (simp add: sum_pages)
qed

theorem merge_pdfs_writes_witness:
  "glob_pdf fs_ok \<noteq> []
   \<and> writes (snd (merge_pdfs ''merged.pdf'' fs_ok)) = [(''merged.pdf'', [1, 2, 9, 3, 4])]"
proof -
  have h: "\<forall>(name, f) \<in> set (glob_pdf fs_ok). f \<noteq> Malformed"
    by code_simp
  have g: "glob_pdf fs_ok \<noteq> []"
    by code_simp
  have s: "sort_key fst (glob_pdf fs_ok)
           = [(''a.pdf'', Readable [1, 2]), (''a10.pdf'', Readable [9]), (''b.pdf'', Readable [3, 4])]"
    by code_simp
  have "writes (snd (merge_pdfs ''merged.pdf'' fs_ok)) = [(''merged.pdf'', [1, 2, 9, 3, 4])]"
    using merge_pdfs_writes [of "''merged.pdf''" fs_ok] g h by (simp add: s)
  with g show ?thesis by blast
qed

text \<open>
  The claim as written fails on a directory whose only \<open>*.pdf\<close> file is not a readable
  document: a matching file exists, the merger raises while appending it, and nothing is
  written.
\<close>

theorem merge_pdfs_malformed_writes_nothing:
  "input_dir fs_bad = [(''a.pdf'', Malformed)] \<and> matches_pdf ''a.pdf''
   \<and> writes (snd (merge_pdfs ''merged.pdf'' fs_bad)) = []
   \<and> snd (merge_pdfs ''merged.pdf'' fs_bad)
       = [Printed Merging_in_this_order, Printed (Listed ''a.pdf''), Closed_merger,
          Merge_raised PdfReadError]"
  by code_simp

end
